theory Spec2Isabelle
  imports Complex_Main "HOL-Library.AList"
begin

section \<open>JavaScript values as the program reads them\<close>

text \<open>
  The program (\<^verbatim>\<open>src/index.js\<close>) reads JSON payloads without a schema, so a field can
  hold any JavaScript value. A number is either \<^verbatim>\<open>NaN\<close>, one of the two infinities or a
  finite value. The program only compares numbers (\<^verbatim>\<open><\<close>, \<^verbatim>\<open><=\<close>, \<^verbatim>\<open>===\<close>) on the paths
  modelled here, and the order of finite doubles is the order of the reals they denote,
  so a finite number is modelled by the real it denotes.
\<close>

datatype jsnum = NaN | PosInf | NegInf | Fin real

text \<open>
  An object or array is kept as its reference only: \<^verbatim>\<open>===\<close> on objects is identity of
  reference, and every object is truthy.
\<close>

datatype jsval =
    JUndefined
  | JNull
  | JBool bool
  | JNum jsnum
  | JStr string
  | JObj nat

text \<open>\<^verbatim>\<open>a < b\<close> on numbers: false as soon as one side is \<^verbatim>\<open>NaN\<close>.\<close>

fun jsnum_less :: "jsnum \<Rightarrow> jsnum \<Rightarrow> bool" where
  "jsnum_less NaN _ = False"
| "jsnum_less _ NaN = False"
| "jsnum_less _ NegInf = False"
| "jsnum_less NegInf _ = True"
| "jsnum_less PosInf _ = False"
| "jsnum_less (Fin a) PosInf = True"
| "jsnum_less (Fin a) (Fin b) = (a < b)"

text \<open>\<^verbatim>\<open>a <= b\<close> on numbers.\<close>

fun jsnum_le :: "jsnum \<Rightarrow> jsnum \<Rightarrow> bool" where
  "jsnum_le NaN _ = False"
| "jsnum_le _ NaN = False"
| "jsnum_le NegInf _ = True"
| "jsnum_le _ PosInf = True"
| "jsnum_le PosInf _ = False"
| "jsnum_le (Fin a) NegInf = False"
| "jsnum_le (Fin a) (Fin b) = (a \<le> b)"

text \<open>\<^verbatim>\<open>Number.isFinite(x)\<close> for a value that is already a number.\<close>

fun isFinite :: "jsnum \<Rightarrow> bool" where
  "isFinite (Fin _) = True"
| "isFinite _ = False"

text \<open>
  \<^verbatim>\<open>Number(v)\<close>. On \<^verbatim>\<open>undefined\<close>, \<^verbatim>\<open>null\<close>, booleans and numbers the result is fixed by
  the language. On strings and objects it is the language's string parser and
  \<^verbatim>\<open>ToPrimitive\<close>, which are not part of this repository: they are the parameter \<open>cv\<close>,
  and every theorem below holds for every \<open>cv\<close>.
\<close>

fun Number_js :: "(jsval \<Rightarrow> jsnum) \<Rightarrow> jsval \<Rightarrow> jsnum" where
  "Number_js cv JUndefined = NaN"
| "Number_js cv JNull = Fin 0"
| "Number_js cv (JBool b) = Fin (if b then 1 else 0)"
| "Number_js cv (JNum n) = n"
| "Number_js cv (JStr s) = cv (JStr s)"
| "Number_js cv (JObj r) = cv (JObj r)"

text \<open>Truthiness, as \<^verbatim>\<open>!!v\<close> and \<^verbatim>\<open>if (v)\<close> read it.\<close>

fun truthy :: "jsval \<Rightarrow> bool" where
  "truthy JUndefined = False"
| "truthy JNull = False"
| "truthy (JBool b) = b"
| "truthy (JNum NaN) = False"
| "truthy (JNum (Fin r)) = (r \<noteq> 0)"
| "truthy (JNum _) = True"
| "truthy (JStr s) = (s \<noteq> [])"
| "truthy (JObj _) = True"

text \<open>Strict equality \<^verbatim>\<open>a === b\<close>.\<close>

fun strict_eq :: "jsval \<Rightarrow> jsval \<Rightarrow> bool" where
  "strict_eq JUndefined JUndefined = True"
| "strict_eq JNull JNull = True"
| "strict_eq (JBool a) (JBool b) = (a = b)"
| "strict_eq (JNum NaN) (JNum _) = False"
| "strict_eq (JNum _) (JNum NaN) = False"
| "strict_eq (JNum a) (JNum b) = (a = b)"
| "strict_eq (JStr a) (JStr b) = (a = b)"
| "strict_eq (JObj a) (JObj b) = (a = b)"
| "strict_eq _ _ = False"

text \<open>\<^verbatim>\<open>v == null\<close>: true for \<^verbatim>\<open>null\<close> and \<^verbatim>\<open>undefined\<close> only.\<close>

fun nullish :: "jsval \<Rightarrow> bool" where
  "nullish JUndefined = True"
| "nullish JNull = True"
| "nullish _ = False"

text \<open>\<^verbatim>\<open>typeof v === "number"\<close>.\<close>

fun is_number :: "jsval \<Rightarrow> bool" where
  "is_number (JNum _) = True"
| "is_number _ = False"

section \<open>Match records\<close>

text \<open>
  A match record as the program reads it. Each field holds what the optional chain on
  the payload yields, \<^verbatim>\<open>undefined\<close> when a link of the chain is missing:
  \<open>m_time\<close> is \<^verbatim>\<open>m?.result?.time\<close>, \<open>m_forfeited\<close> is \<^verbatim>\<open>m?.forfeited\<close>, \<open>m_winner\<close> is
  \<^verbatim>\<open>m?.result?.uuid\<close>, \<open>m_type\<close> is \<^verbatim>\<open>m?.type\<close>. The identifier is only ever tested against
  \<^verbatim>\<open>null\<close> and turned into text, so \<open>m_id\<close> is \<open>None\<close> when \<^verbatim>\<open>m?.id == null\<close> and
  otherwise \<open>Some (String(m.id))\<close>.
\<close>

record match_record =
  m_id :: "string option"
  m_type :: jsval
  m_time :: jsval
  m_forfeited :: jsval
  m_winner :: jsval

text \<open>The test \<^verbatim>\<open>Number.isFinite(x) && x > 0\<close>, written in the source as its negation.\<close>

definition finite_positive :: "jsnum \<Rightarrow> bool" where
  "finite_positive x = (isFinite x \<and> jsnum_less (Fin 0) x)"

text \<open>\<^verbatim>\<open>isValidWinForPlayer(m, playerUuid)\<close>, with its four early returns in order.\<close>

definition isValidWinForPlayer :: "(jsval \<Rightarrow> jsnum) \<Rightarrow> match_record \<Rightarrow> jsval \<Rightarrow> bool" where
  "isValidWinForPlayer cv m playerUuid =
     (let time = Number_js cv (m_time m);
          forfeited = truthy (m_forfeited m);
          winnerUuid = m_winner m
      in if \<not> isFinite time \<or> jsnum_le time (Fin 0) then False
         else if forfeited then False
         else if \<not> truthy winnerUuid then False
         else if \<not> truthy playerUuid then False
         else strict_eq winnerUuid playerUuid)"

text \<open>
  The validator in the words of the specification: a finite, strictly positive time, not
  forfeited, a winner identity that is not null, and that identity equal to the player's.
\<close>

definition spec_isCountableWin :: "(jsval \<Rightarrow> jsnum) \<Rightarrow> match_record \<Rightarrow> jsval \<Rightarrow> bool" where
  "spec_isCountableWin cv m u =
     (finite_positive (Number_js cv (m_time m))
      \<and> \<not> truthy (m_forfeited m)
      \<and> \<not> nullish (m_winner m)
      \<and> strict_eq (m_winner m) u)"

section \<open>The match source\<close>

text \<open>
  What one request to the match API yields, as the fetchers read it: the request throws
  (timeout, transport or HTTP error), or \<^verbatim>\<open>res.data?.data\<close> is not an array, or it is an array
  of match records.
\<close>

datatype response = Threw | NotArray | Matches "match_record list"

datatype error = RequestFailed

text \<open>
  The answers of the source during one run. \<open>ranked p\<close> answers the fastest-first request
  for player \<open>p\<close>; \<open>paged p t k\<close> answers the \<open>k\<close>-th newest-first request for player \<open>p\<close> and
  match type \<open>t\<close> (the cursor \<^verbatim>\<open>before\<close> only tells the source which page to serve);
  \<open>newest p\<close> answers the request for the single newest match.
\<close>

record source =
  ranked :: "string \<Rightarrow> response"
  paged :: "string \<Rightarrow> nat \<Rightarrow> nat \<Rightarrow> response"
  newest :: "string \<Rightarrow> response"

section \<open>Best-time resolvers\<close>

text \<open>The loop of \<^verbatim>\<open>fetchRankedPB\<close>: the time of the first match that validates, else \<^verbatim>\<open>null\<close>.\<close>

fun rankedLoop :: "(jsval \<Rightarrow> jsnum) \<Rightarrow> jsval \<Rightarrow> match_record list \<Rightarrow> jsval" where
  "rankedLoop cv puid [] = JNull"
| "rankedLoop cv puid (m # ms) =
     (if isValidWinForPlayer cv m puid then JNum (Number_js cv (m_time m))
      else rankedLoop cv puid ms)"

text \<open>\<^verbatim>\<open>fetchRankedPB(player)\<close>, given the answer to its one request.\<close>

definition fetchRankedPB ::
  "(jsval \<Rightarrow> jsnum) \<Rightarrow> (string \<Rightarrow> jsval) \<Rightarrow> response \<Rightarrow> string \<Rightarrow> error + jsval" where
  "fetchRankedPB cv uuidByName res player =
     (case res of
        Threw \<Rightarrow> Inl RequestFailed
      | NotArray \<Rightarrow> Inr JNull
      | Matches matches \<Rightarrow>
          if matches = [] then Inr JNull
          else Inr (rankedLoop cv (uuidByName player) matches))"

text \<open>The inner loop of \<^verbatim>\<open>fetchCasualPrivatePB\<close> over one page, threading \<^verbatim>\<open>best\<close>.\<close>

fun scanPage :: "(jsval \<Rightarrow> jsnum) \<Rightarrow> jsval \<Rightarrow> match_record list \<Rightarrow> jsnum \<Rightarrow> jsnum" where
  "scanPage cv puid [] best = best"
| "scanPage cv puid (m # ms) best =
     (if \<not> isValidWinForPlayer cv m puid then scanPage cv puid ms best
      else let t = Number_js cv (m_time m)
           in if isFinite t \<and> jsnum_less (Fin 0) t \<and> jsnum_less t best
              then scanPage cv puid ms t
              else scanPage cv puid ms best)"

definition MAX_PAGES :: nat where
  "MAX_PAGES = 20"

text \<open>
  The outer loop of \<^verbatim>\<open>fetchCasualPrivatePB\<close>, from page number \<open>page\<close> with the running
  minimum \<open>best\<close>. Beside \<^verbatim>\<open>best\<close> it returns the number of requests it has issued, which is
  how far the scan went. A request that throws ends the whole call with the exception.
\<close>

function scanPages ::
  "(jsval \<Rightarrow> jsnum) \<Rightarrow> jsval \<Rightarrow> (nat \<Rightarrow> response) \<Rightarrow> nat \<Rightarrow> jsnum \<Rightarrow> error + (jsnum \<times> nat)" where
  "scanPages cv puid pages page best =
     (if page < MAX_PAGES then
        (case pages page of
           Threw \<Rightarrow> Inl RequestFailed
         | NotArray \<Rightarrow> Inr (best, Suc page)
         | Matches matches \<Rightarrow>
             if matches = [] then Inr (best, Suc page)
             else let best' = scanPage cv puid matches best
                  in (case m_id (last matches) of
                        None \<Rightarrow> Inr (best', Suc page)
                      | Some lastId \<Rightarrow> scanPages cv puid pages (Suc page) best'))
      else Inr (best, page))"
  by pat_completeness auto
termination
  by (relation "measure (\<lambda>(cv, puid, pages, page, best). MAX_PAGES - page)") auto

declare scanPages.simps [simp del]

text \<open>
  \<^verbatim>\<open>fetchCasualPrivatePB(player, matchType)\<close>, given the answers to its requests in order.
  The result is paired with the number of requests issued.
\<close>

definition fetchCasualPrivatePB ::
  "(jsval \<Rightarrow> jsnum) \<Rightarrow> (string \<Rightarrow> jsval) \<Rightarrow> (nat \<Rightarrow> response) \<Rightarrow> string
     \<Rightarrow> error + (jsval \<times> nat)" where
  "fetchCasualPrivatePB cv uuidByName pages player =
     (let puid = uuidByName player
      in if \<not> truthy puid then Inr (JNull, 0)
         else (case scanPages cv puid pages 0 PosInf of
                 Inl e \<Rightarrow> Inl e
               | Inr (best, n) \<Rightarrow> Inr (if best \<noteq> PosInf then JNum best else JNull, n)))"

text \<open>\<^verbatim>\<open>fetchPBTime(player, matchType)\<close>.\<close>

definition fetchPBTime ::
  "(jsval \<Rightarrow> jsnum) \<Rightarrow> (string \<Rightarrow> jsval) \<Rightarrow> source \<Rightarrow> string \<Rightarrow> nat \<Rightarrow> error + jsval" where
  "fetchPBTime cv uuidByName src player matchType =
     (if matchType = 2 then fetchRankedPB cv uuidByName (ranked src player) player
      else if matchType = 1 \<or> matchType = 3 then
        (case fetchCasualPrivatePB cv uuidByName (paged src player matchType) player of
           Inl e \<Rightarrow> Inl e
         | Inr (v, n) \<Rightarrow> Inr v)
      else Inr JNull)"

text \<open>\<^verbatim>\<open>await f.catch(() => null)\<close>: an exception becomes \<^verbatim>\<open>null\<close>.\<close>

definition catch_null :: "error + jsval \<Rightarrow> jsval" where
  "catch_null r = (case r of Inl e \<Rightarrow> JNull | Inr v \<Rightarrow> v)"

text \<open>
  \<^verbatim>\<open>fetchLatestMatch(player)\<close>, given the answer to its request. An entry \<^verbatim>\<open>matches[0]\<close> that
  is \<^verbatim>\<open>null\<close> is the record with no identifier: the watcher skips both the same way.
\<close>

definition fetchLatestMatch :: "response \<Rightarrow> error + match_record option" where
  "fetchLatestMatch res =
     (case res of
        Threw \<Rightarrow> Inl RequestFailed
      | NotArray \<Rightarrow> Inr None
      | Matches matches \<Rightarrow> (case matches of [] \<Rightarrow> Inr None | m # _ \<Rightarrow> Inr (Some m)))"

section \<open>Minimum of the validated times, as the specification words it\<close>

text \<open>The value of a finite number.\<close>

fun fin_val :: "jsnum \<Rightarrow> real" where
  "fin_val (Fin r) = r"
| "fin_val _ = 0"

text \<open>The completion times of the matches of a list that the validator accepts.\<close>

definition validated_times :: "(jsval \<Rightarrow> jsnum) \<Rightarrow> jsval \<Rightarrow> match_record list \<Rightarrow> real list" where
  "validated_times cv puid ms =
     map (\<lambda>m. fin_val (Number_js cv (m_time m))) (filter (\<lambda>m. isValidWinForPlayer cv m puid) ms)"

text \<open>The minimum of a list of times as a result value: \<^verbatim>\<open>null\<close> when there is none.\<close>

definition min_time :: "real list \<Rightarrow> jsval" where
  "min_time ts = (if ts = [] then JNull else JNum (Fin (Min (set ts))))"

text \<open>The matches of a page; a page that is not an array has none.\<close>

fun page_matches :: "response \<Rightarrow> match_record list" where
  "page_matches (Matches ms) = ms"
| "page_matches _ = []"

text \<open>All matches of the first \<open>n\<close> pages, in order.\<close>

definition matches_upto :: "(nat \<Rightarrow> response) \<Rightarrow> nat \<Rightarrow> match_record list" where
  "matches_upto pages n = concat (map (\<lambda>k. page_matches (pages k)) [0..<n])"

text \<open>
  The stopping rule in the words of the specification: a page ends the scan when it
  returns no matches. \<open>spec_scan_length\<close> is the number of pages requested under that rule
  and the ceiling.
\<close>

definition spec_page_stops :: "response \<Rightarrow> bool" where
  "spec_page_stops r = (page_matches r = [])"

definition spec_scan_length :: "(nat \<Rightarrow> response) \<Rightarrow> nat" where
  "spec_scan_length pages =
     (case find (\<lambda>k. spec_page_stops (pages k)) [0..<MAX_PAGES] of
        Some k \<Rightarrow> Suc k
      | None \<Rightarrow> MAX_PAGES)"

text \<open>
  The stopping rule of the code: a page also ends the scan, after it has been scanned,
  when its last match has no identifier to use as the next cursor.
\<close>

definition page_stops :: "response \<Rightarrow> bool" where
  "page_stops r =
     (case r of Matches ms \<Rightarrow> ms = [] \<or> m_id (last ms) = None | _ \<Rightarrow> True)"

definition scan_length :: "(nat \<Rightarrow> response) \<Rightarrow> nat" where
  "scan_length pages =
     (case find (\<lambda>k. page_stops (pages k)) [0..<MAX_PAGES] of
        Some k \<Rightarrow> Suc k
      | None \<Rightarrow> MAX_PAGES)"

text \<open>A page is ordered fastest-first when no match is strictly faster than one before it.\<close>

definition fastest_first :: "(jsval \<Rightarrow> jsnum) \<Rightarrow> match_record list \<Rightarrow> bool" where
  "fastest_first cv ms =
     sorted_wrt (\<lambda>a b. \<not> jsnum_less (Number_js cv (m_time b)) (Number_js cv (m_time a))) ms"

section \<open>Auxiliary notions for the scan\<close>

text \<open>The assignment \<^verbatim>\<open>if (t < best) best = t\<close> for a finite time \<open>t\<close>.\<close>

definition lower :: "jsnum \<Rightarrow> real \<Rightarrow> jsnum" where
  "lower best t = (if jsnum_less (Fin t) best then Fin t else best)"

text \<open>The scan length and the matches seen when the scan starts at page \<open>page\<close>.\<close>

definition stop_after :: "(nat \<Rightarrow> response) \<Rightarrow> nat \<Rightarrow> nat" where
  "stop_after pages page =
     (case find (\<lambda>k. page_stops (pages k)) [page..<MAX_PAGES] of
        Some k \<Rightarrow> Suc k
      | None \<Rightarrow> MAX_PAGES)"

definition matches_between :: "(nat \<Rightarrow> response) \<Rightarrow> nat \<Rightarrow> nat \<Rightarrow> match_record list" where
  "matches_between pages a b = concat (map (\<lambda>k. page_matches (pages k)) [a..<b])"

section \<open>Persisted state, messages and effects\<close>

text \<open>
  The state blob of \<^verbatim>\<open>state.json\<close>. \<open>pbByType t\<close> is the object \<^verbatim>\<open>state.pbByType[t]\<close> as the list
  of its entries in key order, which for the roster's names is insertion order; a missing
  object is the empty list, as after \<^verbatim>\<open>state.pbByType[t] || {}\<close>. \<open>lastMatchId p\<close> is
  \<^verbatim>\<open>state.lastMatchId[p]\<close>, \<^verbatim>\<open>undefined\<close> when missing. \<open>top3ByType t\<close> is the cached ranking,
  the empty list when \<^verbatim>\<open>state.top3ByType[t]\<close> is not an array.
\<close>

record state =
  pbByType :: "nat \<Rightarrow> (string \<times> jsval) list"
  boardMessageId :: jsval
  lastMatchId :: "string \<Rightarrow> jsval"
  top3ByType :: "nat \<Rightarrow> string list"

text \<open>
  The texts sent to the channel, one constructor for each template of the source, carrying
  the values the template interpolates. Times are kept as numbers (the rendering by
  \<^verbatim>\<open>formatTime\<close> is left out), and so are the opponent names and the rating of a match
  result.
\<close>

datatype verdict = Beat | LostTo | Finished

datatype message =
    TakesFirst string string
  | MovesSecond string string
  | BreaksThird string string
  | NewPB string string jsnum jsnum
  | MatchResult string verdict "jsnum option" string
  | GenericResult string "jsnum option" string

text \<open>The effects of a tick in the order they happen.\<close>

datatype event =
    Save state
  | Send message
  | EditBoard state

definition players :: "string list" where
  "players = [''JerryBox'', ''tumblintim'', ''ilovehuntercr'', ''jeefq'', ''LegitNG'',
              ''superboy80'', ''SDxSHOcK'', ''MyKicksInBay'']"

definition TRACK_TYPES :: "nat list" where
  "TRACK_TYPES = [1, 2, 3]"

text \<open>\<^verbatim>\<open>typeLabel(t)\<close>.\<close>

definition typeLabel :: "jsval \<Rightarrow> string" where
  "typeLabel t =
     (if strict_eq t (JNum (Fin 1)) then ''Casual''
      else if strict_eq t (JNum (Fin 2)) then ''Ranked''
      else if strict_eq t (JNum (Fin 3)) then ''Private''
      else if strict_eq t (JNum (Fin 4)) then ''Event''
      else ''Match'')"

text \<open>\<^verbatim>\<open>getPlacementMessage(place, player, type)\<close>; \<open>None\<close> is \<^verbatim>\<open>null\<close>.\<close>

definition getPlacementMessage :: "int \<Rightarrow> string \<Rightarrow> string \<Rightarrow> message option" where
  "getPlacementMessage place player type =
     (if place = 1 then Some (TakesFirst player type)
      else if place = 2 then Some (MovesSecond player type)
      else if place = 3 then Some (BreaksThird player type)
      else None)"

text \<open>\<^verbatim>\<open>obj[k]\<close> on an object given by its entries.\<close>

definition get_entry :: "(string \<times> jsval) list \<Rightarrow> string \<Rightarrow> jsval" where
  "get_entry obj k = (case map_of obj k of None \<Rightarrow> JUndefined | Some v \<Rightarrow> v)"

text \<open>
  The ranking both \<^verbatim>\<open>computeTop3\<close> and the updater build: the entries read as numbers, those
  that are finite and positive, in ascending order by a stable sort.
\<close>

definition ranking :: "(jsval \<Rightarrow> jsnum) \<Rightarrow> (string \<times> jsval) list \<Rightarrow> (string \<times> jsnum) list" where
  "ranking cv obj =
     sort_key (\<lambda>(name, v). fin_val v)
       (filter (\<lambda>(name, v). isFinite v \<and> jsnum_less (Fin 0) v)
          (map (\<lambda>(name, val). (name, Number_js cv val)) obj))"

text \<open>\<^verbatim>\<open>computeTop3(state, t)\<close>.\<close>

definition computeTop3 :: "(jsval \<Rightarrow> jsnum) \<Rightarrow> state \<Rightarrow> nat \<Rightarrow> string list" where
  "computeTop3 cv s t = map fst (take 3 (ranking cv (pbByType s t)))"

text \<open>\<^verbatim>\<open>xs.findIndex(f)\<close>: the index of the first element that satisfies \<open>f\<close>, or \<open>-1\<close>.\<close>

fun findIndex :: "('a \<Rightarrow> bool) \<Rightarrow> 'a list \<Rightarrow> int" where
  "findIndex f [] = -1"
| "findIndex f (x # xs) =
     (if f x then 0 else (let i = findIndex f xs in if i < 0 then -1 else i + 1))"

text \<open>\<^verbatim>\<open>xs[i]\<close> on an array: \<open>None\<close> is the \<^verbatim>\<open>undefined\<close> of an index out of range.\<close>

definition array_get :: "'a list \<Rightarrow> int \<Rightarrow> 'a option" where
  "array_get xs i = (if 0 \<le> i \<and> i < int (length xs) then Some (xs ! nat i) else None)"

text \<open>\<^verbatim>\<open>state.pbByType[t][p] = v\<close>.\<close>

definition set_pb :: "state \<Rightarrow> nat \<Rightarrow> string \<Rightarrow> jsval \<Rightarrow> state" where
  "set_pb s t p v = s\<lparr>pbByType := (pbByType s)(t := AList.update p v (pbByType s t))\<rparr>"

text \<open>A match type of \<^verbatim>\<open>TRACK_TYPES\<close> as the number the source passes around.\<close>

definition type_value :: "nat \<Rightarrow> jsval" where
  "type_value t = JNum (Fin (real t))"

section \<open>The best-time updater\<close>

text \<open>
  Both periodic tasks are modelled as runs that nothing interrupts: a tick starts from the
  state it loads and performs its effects in program order. Writing the state file,
  sending to the channel and editing the board are taken to succeed. The state a tick
  loads is the state last saved. In the source the two callbacks share the variable
  \<^verbatim>\<open>state\<close> and each reassigns it when it starts, so at an \<^verbatim>\<open>await\<close> one of them can replace
  the state the other works on. What is proved of a whole tick is therefore about a tick
  that runs alone; what is proved of a step (\<open>pb_player\<close>, \<open>watch_player\<close>) holds for
  whatever state the step finds, since a step stores and saves before its first \<^verbatim>\<open>await\<close>.
\<close>

text \<open>
  The messages of one improvement: the placement message when the new place is in the top
  three and the snapshot has another name (or none) in that slot, then the new-best message.
\<close>

definition improvement_messages ::
  "string list \<Rightarrow> int \<Rightarrow> nat \<Rightarrow> string \<Rightarrow> jsnum \<Rightarrow> jsnum \<Rightarrow> message list" where
  "improvement_messages oldTop3 place t p latest prev =
     (let typeName = typeLabel (type_value t)
      in (if place \<ge> 1 \<and> place \<le> 3 then
            (case getPlacementMessage place p typeName of
               Some msg \<Rightarrow> if array_get oldTop3 (place - 1) \<noteq> Some p then [msg] else []
             | None \<Rightarrow> [])
          else [])
         @ [NewPB typeName p latest prev])"

text \<open>
  The body of the loop over the players in the updater, for match type \<open>t\<close> and player \<open>p\<close>.
  \<open>latest\<close> is the value of \<^verbatim>\<open>await fetchPBTime(p, t).catch(() => null)\<close>; the pair is the
  state and the effects so far.
\<close>

definition pb_player ::
  "(jsval \<Rightarrow> jsnum) \<Rightarrow> nat \<Rightarrow> string list \<Rightarrow> jsval \<Rightarrow> string \<Rightarrow> state \<times> event list
     \<Rightarrow> state \<times> event list" where
  "pb_player cv t oldTop3 latest p st =
     (case st of (s, tr) \<Rightarrow>
        (case latest of
           JNum l \<Rightarrow>
             let prev = Number_js cv (get_entry (pbByType s t) p)
             in if \<not> isFinite prev \<or> jsnum_le prev (Fin 0) then (set_pb s t p (JNum l), tr)
                else if jsnum_less l prev then
                  (let s' = set_pb s t p (JNum l);
                       sorted = ranking cv (pbByType s' t);
                       place = findIndex (\<lambda>(name, v). name = p) sorted + 1
                   in (s', tr @ [Save s']
                             @ map Send (improvement_messages oldTop3 place t p l prev)))
                else (s, tr)
         | _ \<Rightarrow> (s, tr)))"

text \<open>The loop over the players for one match type, then the refresh of the cached top three.\<close>

definition pb_type ::
  "(jsval \<Rightarrow> jsnum) \<Rightarrow> (string \<Rightarrow> jsval) \<Rightarrow> source \<Rightarrow> state \<times> event list \<Rightarrow> nat
     \<Rightarrow> state \<times> event list" where
  "pb_type cv uuidByName src st t =
     (let oldTop3 = top3ByType (fst st) t;
          (s', tr') = foldl (\<lambda>st' p. pb_player cv t oldTop3
                                (catch_null (fetchPBTime cv uuidByName src p t)) p st')
                        st players
      in (s'\<lparr>top3ByType := (top3ByType s')(t := computeTop3 cv s' t)\<rparr>, tr'))"

text \<open>
  One tick of the updater, from the state it loads. \<open>board\<close> tells whether the board message
  was found; storage and channel are taken not to fail.
\<close>

definition pb_tick ::
  "(jsval \<Rightarrow> jsnum) \<Rightarrow> (string \<Rightarrow> jsval) \<Rightarrow> source \<Rightarrow> bool \<Rightarrow> state \<Rightarrow> state \<times> event list" where
  "pb_tick cv uuidByName src board s =
     (let (s', tr) = foldl (pb_type cv uuidByName src) (s, []) TRACK_TYPES
      in (s', tr @ [Save s'] @ (if board then [EditBoard s'] else [])))"

section \<open>The match watcher\<close>

text \<open>\<^verbatim>\<open>buildRankedResultMessage\<close>, without the opponent and rating texts.\<close>

definition buildRankedResultMessage ::
  "(jsval \<Rightarrow> jsnum) \<Rightarrow> string \<Rightarrow> jsval \<Rightarrow> match_record \<Rightarrow> message" where
  "buildRankedResultMessage cv trackedName trackedUuid m =
     (let typeName = typeLabel (m_type m);
          time = Number_js cv (m_time m);
          forfeited = truthy (m_forfeited m);
          winnerUuid = (if truthy (m_winner m) then m_winner m else JNull)
      in if forfeited \<or> \<not> isFinite time then
           (if truthy winnerUuid \<and> strict_eq winnerUuid trackedUuid
              then MatchResult trackedName Beat None typeName
            else if truthy winnerUuid \<and> \<not> strict_eq winnerUuid trackedUuid
              then MatchResult trackedName LostTo None typeName
            else MatchResult trackedName Finished None typeName)
         else if truthy winnerUuid \<and> strict_eq winnerUuid trackedUuid
           then MatchResult trackedName Beat (Some time) typeName
         else if truthy winnerUuid \<and> \<not> strict_eq winnerUuid trackedUuid
           then MatchResult trackedName LostTo (Some time) typeName
         else MatchResult trackedName Finished (Some time) typeName)"

text \<open>The announcement of a new match of player \<open>p\<close>, with or without a known identity.\<close>

definition result_message ::
  "(jsval \<Rightarrow> jsnum) \<Rightarrow> (string \<Rightarrow> jsval) \<Rightarrow> string \<Rightarrow> match_record \<Rightarrow> message" where
  "result_message cv uuidByName p m =
     (let trackedUuid = (if truthy (uuidByName p) then uuidByName p else JNull)
      in if \<not> truthy trackedUuid then
           (let time = Number_js cv (m_time m);
                forfeited = truthy (m_forfeited m)
            in if forfeited \<or> \<not> isFinite time
               then GenericResult p None (typeLabel (m_type m))
               else GenericResult p (Some time) (typeLabel (m_type m)))
         else buildRankedResultMessage cv p trackedUuid m)"

text \<open>\<^verbatim>\<open>state.lastMatchId[p] = idStr\<close>.\<close>

definition set_watermark :: "state \<Rightarrow> string \<Rightarrow> string \<Rightarrow> state" where
  "set_watermark s p idStr = s\<lparr>lastMatchId := (lastMatchId s)(p := JStr idStr)\<rparr>"

text \<open>
  The body of the loop over the players in the watcher. \<open>fetched\<close> is the value of
  \<^verbatim>\<open>await fetchLatestMatch(p).catch(() => null)\<close>, \<open>None\<close> for \<^verbatim>\<open>null\<close>.
\<close>

definition watch_player ::
  "(jsval \<Rightarrow> jsnum) \<Rightarrow> (string \<Rightarrow> jsval) \<Rightarrow> match_record option \<Rightarrow> string
     \<Rightarrow> state \<times> event list \<Rightarrow> state \<times> event list" where
  "watch_player cv uuidByName fetched p st =
     (case st of (s, tr) \<Rightarrow>
        (case fetched of
           None \<Rightarrow> (s, tr)
         | Some m \<Rightarrow>
             (case m_id m of
                None \<Rightarrow> (s, tr)
              | Some idStr \<Rightarrow>
                  (case lastMatchId s p of
                     JStr prevIdStr \<Rightarrow>
                       if idStr \<noteq> prevIdStr then
                         (let s' = set_watermark s p idStr
                          in (s', tr @ [Save s', Send (result_message cv uuidByName p m)]))
                       else (s, tr)
                   | _ \<Rightarrow> (set_watermark s p idStr, tr)))))"

text \<open>\<^verbatim>\<open>.catch(() => null)\<close> on \<^verbatim>\<open>fetchLatestMatch\<close>.\<close>

definition latest_or_null :: "error + match_record option \<Rightarrow> match_record option" where
  "latest_or_null r = (case r of Inl e \<Rightarrow> None | Inr v \<Rightarrow> v)"

text \<open>One tick of the watcher, from the state it loads.\<close>

definition watch_tick ::
  "(jsval \<Rightarrow> jsnum) \<Rightarrow> (string \<Rightarrow> jsval) \<Rightarrow> source \<Rightarrow> state \<Rightarrow> state \<times> event list" where
  "watch_tick cv uuidByName src s =
     (let (s', tr) = foldl (\<lambda>st p. watch_player cv uuidByName
                               (latest_or_null (fetchLatestMatch (newest src p))) p st)
                       (s, []) players
      in (s', tr @ [Save s']))"

text \<open>The texts sent during a run of effects.\<close>

definition sent :: "event list \<Rightarrow> message list" where
  "sent tr = concat (map (\<lambda>e. case e of Send m \<Rightarrow> [m] | _ \<Rightarrow> []) tr)"

section \<open>Reading the effects\<close>

text \<open>The stored best-time entry of a match type and player.\<close>

definition pb_entry :: "state \<Rightarrow> nat \<Rightarrow> string \<Rightarrow> jsval" where
  "pb_entry s t p = get_entry (pbByType s t) p"

text \<open>The player a message names, and the type label it carries.\<close>

fun msg_player :: "message \<Rightarrow> string" where
  "msg_player (TakesFirst p ty) = p"
| "msg_player (MovesSecond p ty) = p"
| "msg_player (BreaksThird p ty) = p"
| "msg_player (NewPB ty p l prev) = p"
| "msg_player (MatchResult p v tm ty) = p"
| "msg_player (GenericResult p tm ty) = p"

fun msg_label :: "message \<Rightarrow> string" where
  "msg_label (TakesFirst p ty) = ty"
| "msg_label (MovesSecond p ty) = ty"
| "msg_label (BreaksThird p ty) = ty"
| "msg_label (NewPB ty p l prev) = ty"
| "msg_label (MatchResult p v tm ty) = ty"
| "msg_label (GenericResult p tm ty) = ty"

text \<open>The best-time messages of a run of effects that concern a player and a match type.\<close>

definition pb_messages_about :: "string \<Rightarrow> nat \<Rightarrow> event list \<Rightarrow> message list" where
  "pb_messages_about p t tr =
     filter (\<lambda>m. msg_player m = p \<and> msg_label m = typeLabel (type_value t)) (sent tr)"

text \<open>The messages of a run of effects that name a player.\<close>

definition messages_naming :: "string \<Rightarrow> event list \<Rightarrow> message list" where
  "messages_naming p tr = filter (\<lambda>m. msg_player m = p) (sent tr)"

text \<open>The placement messages, as opposed to the new-best message.\<close>

fun is_placement :: "message \<Rightarrow> bool" where
  "is_placement (TakesFirst p ty) = True"
| "is_placement (MovesSecond p ty) = True"
| "is_placement (BreaksThird p ty) = True"
| "is_placement _ = False"

text \<open>
  What a run shows about one player and one match type: the stored entry and the
  best-time messages about the pair.
\<close>

definition pb_view :: "string \<Rightarrow> nat \<Rightarrow> state \<times> event list \<Rightarrow> jsval \<times> message list" where
  "pb_view p t st = (pb_entry (fst st) t p, pb_messages_about p t (snd st))"

text \<open>What a run of the watcher shows about one player: the watermark and the messages naming the player.\<close>

definition watch_view :: "string \<Rightarrow> state \<times> event list \<Rightarrow> jsval \<times> message list" where
  "watch_view p st = (lastMatchId (fst st) p, messages_naming p (snd st))"

text \<open>The 1-based place of a player in the ranking of a match type, 0 when not ranked.\<close>

definition placement_of :: "(jsval \<Rightarrow> jsnum) \<Rightarrow> state \<Rightarrow> nat \<Rightarrow> string \<Rightarrow> int" where
  "placement_of cv s t p = findIndex (\<lambda>(name, v). name = p) (ranking cv (pbByType s t)) + 1"

text \<open>
  The entries of a stored object that can be ranked, in stored order: read as numbers,
  finite and positive. \<open>ranking\<close> sorts this list.
\<close>

definition rankable :: "(jsval \<Rightarrow> jsnum) \<Rightarrow> (string \<times> jsval) list \<Rightarrow> (string \<times> jsnum) list" where
  "rankable cv obj =
     filter (\<lambda>(name, v). isFinite v \<and> jsnum_less (Fin 0) v)
       (map (\<lambda>(name, val). (name, Number_js cv val)) obj)"


text \<open>
  A stored entry that is a finite, strictly positive number, in the words of the
  specification: a number, not a value that converts to one.
\<close>

definition spec_positive_number :: "jsval \<Rightarrow> bool" where
  "spec_positive_number v = (case v of JNum n \<Rightarrow> finite_positive n | _ \<Rightarrow> False)"

text \<open>
  The rank of a player in a stored object, in the words of the specification: 1-based,
  ascending by time, equal times in stored order. It is one more than the number of
  rankable entries that are strictly faster, or equally fast and stored before the player.
\<close>

definition rank_of :: "(jsval \<Rightarrow> jsnum) \<Rightarrow> (string \<times> jsval) list \<Rightarrow> string \<Rightarrow> int" where
  "rank_of cv obj p =
     (let x = fin_val (Number_js cv (get_entry obj p))
      in 1 + int (length (filter (\<lambda>(name, v). fin_val v < x) (rankable cv obj)))
           + int (length (filter (\<lambda>(name, v). fin_val v = x)
                            (takeWhile (\<lambda>(name, v). name \<noteq> p) (rankable cv obj)))))"

text \<open>The placement text for a place among the first three.\<close>

definition placement_text :: "int \<Rightarrow> string \<Rightarrow> string \<Rightarrow> message" where
  "placement_text r p label =
     (if r = 1 then TakesFirst p label else if r = 2 then MovesSecond p label
      else BreaksThird p label)"

text \<open>
  The state and the effects of a tick of the updater at the moment its loops reach player
  \<open>p\<close> in match type \<open>t\<close>: the passes for the match types before \<open>t\<close>, then the steps for the
  players before \<open>p\<close>.
\<close>

definition pb_reach ::
  "(jsval \<Rightarrow> jsnum) \<Rightarrow> (string \<Rightarrow> jsval) \<Rightarrow> source \<Rightarrow> state \<Rightarrow> nat \<Rightarrow> string
     \<Rightarrow> state \<times> event list" where
  "pb_reach cv uuidByName src s t p =
     (let st = foldl (pb_type cv uuidByName src) (s, []) (takeWhile (\<lambda>t'. t' \<noteq> t) TRACK_TYPES)
      in foldl (\<lambda>st' q. pb_player cv t (top3ByType (fst st) t)
                          (catch_null (fetchPBTime cv uuidByName src q t)) q st')
           st (takeWhile (\<lambda>q. q \<noteq> p) players))"

text \<open>
  The messages of an improvement in the words of the specification, for a snapshot of the
  top three and the new rank \<open>r\<close> of the player: a placement message exactly when the rank
  is 1, 2 or 3 and the snapshot does not hold the player in that slot, then always the
  new-best message with the new and the previous time.
\<close>

definition spec_improvement_messages ::
  "string list \<Rightarrow> int \<Rightarrow> nat \<Rightarrow> string \<Rightarrow> jsnum \<Rightarrow> jsnum \<Rightarrow> message list" where
  "spec_improvement_messages snapshot r t p l prev =
     (if (r = 1 \<or> r = 2 \<or> r = 3) \<and> array_get snapshot (r - 1) \<noteq> Some p
      then [placement_text r p (typeLabel (type_value t))] else [])
     @ [NewPB (typeLabel (type_value t)) p l prev]"

section \<open>Concrete data for the examples\<close>

text \<open>A coercion under which no string and no object reads as a number.\<close>

definition no_coercion :: "jsval \<Rightarrow> jsnum" where
  "no_coercion v = NaN"

text \<open>An identity map that knows the first player of the roster only.\<close>

definition one_uuid :: "string \<Rightarrow> jsval" where
  "one_uuid p = (if p = ''JerryBox'' then JStr ''u-jerry'' else JUndefined)"

text \<open>A win of that player in 580000 ms, and a win recorded with an empty winner identity.\<close>

definition win_580 :: match_record where
  "win_580 = \<lparr>m_id = Some ''101'', m_type = JNum (Fin 2), m_time = JNum (Fin 580000),
               m_forfeited = JBool False, m_winner = JStr ''u-jerry''\<rparr>"

definition empty_winner_match :: match_record where
  "empty_winner_match = \<lparr>m_id = Some ''102'', m_type = JNum (Fin 2), m_time = JNum (Fin 5000),
                          m_forfeited = JBool False, m_winner = JStr ''''\<rparr>"

text \<open>
  A faster win of the same player, a win whose record has no identifier, and two page
  sequences: one with well-formed pages, one whose first page ends in the record without
  identifier.
\<close>

definition win_300 :: match_record where
  "win_300 = \<lparr>m_id = Some ''90'', m_type = JNum (Fin 1), m_time = JNum (Fin 300000),
               m_forfeited = JBool False, m_winner = JStr ''u-jerry''\<rparr>"

definition win_no_id :: match_record where
  "win_no_id = \<lparr>m_id = None, m_type = JNum (Fin 1), m_time = JNum (Fin 500000),
                 m_forfeited = JBool False, m_winner = JStr ''u-jerry''\<rparr>"

definition pages_plain :: "nat \<Rightarrow> response" where
  "pages_plain k =
     (if k = 0 then Matches [win_580] else if k = 1 then Matches [win_300] else Matches [])"

definition pages_no_cursor :: "nat \<Rightarrow> response" where
  "pages_no_cursor k =
     (if k = 0 then Matches [win_no_id] else if k = 1 then Matches [win_300] else Matches [])"

text \<open>
  States and sources for the examples: an empty state; a state where the first player
  holds 620000 ms in Ranked behind a rival at 600000; a state whose entry for that player
  is zero; a state with a watermark; a source whose every request fails; a source that
  serves the 580000 ms win of the first player and nothing else.
\<close>

definition state_fresh :: state where
  "state_fresh = \<lparr>pbByType = (\<lambda>t. []), boardMessageId = JNull,
                   lastMatchId = (\<lambda>p. JUndefined), top3ByType = (\<lambda>t. [])\<rparr>"

definition state_rivals :: state where
  "state_rivals =
     \<lparr>pbByType = (\<lambda>t. if t = 2 then [(''tumblintim'', JNum (Fin 600000)),
                                      (''JerryBox'', JNum (Fin 620000))] else []),
      boardMessageId = JNull,
      lastMatchId = (\<lambda>p. JUndefined),
      top3ByType = (\<lambda>t. if t = 2 then [''tumblintim'', ''JerryBox''] else [])\<rparr>"

definition state_zero :: state where
  "state_zero =
     \<lparr>pbByType = (\<lambda>t. if t = 2 then [(''JerryBox'', JNum (Fin 0))] else []),
      boardMessageId = JNull,
      lastMatchId = (\<lambda>p. JUndefined),
      top3ByType = (\<lambda>t. [])\<rparr>"

definition state_watermark :: state where
  "state_watermark =
     \<lparr>pbByType = (\<lambda>t. []), boardMessageId = JNull,
      lastMatchId = (\<lambda>p. if p = ''JerryBox'' then JStr ''100'' else JUndefined),
      top3ByType = (\<lambda>t. [])\<rparr>"

definition source_down :: source where
  "source_down = \<lparr>ranked = (\<lambda>p. Threw), paged = (\<lambda>p t k. Threw), newest = (\<lambda>p. Threw)\<rparr>"

definition source_580 :: source where
  "source_580 =
     \<lparr>ranked = (\<lambda>p. if p = ''JerryBox'' then Matches [win_580] else Matches []),
      paged = (\<lambda>p t k. Matches []),
      newest = (\<lambda>p. if p = ''JerryBox'' then Matches [win_580] else Matches [])\<rparr>"

text \<open>
  A state with three ranked players whose cached top three is their ranking, a state whose
  entry for the first player is the boolean \<^verbatim>\<open>true\<close>, and a source that serves a 605000 ms
  win of the first player.
\<close>

definition state_three :: state where
  "state_three =
     \<lparr>pbByType = (\<lambda>t. if t = 2 then [(''tumblintim'', JNum (Fin 600000)),
                                      (''jeefq'', JNum (Fin 610000)),
                                      (''JerryBox'', JNum (Fin 620000))] else []),
      boardMessageId = JNull,
      lastMatchId = (\<lambda>p. JUndefined),
      top3ByType = (\<lambda>t. if t = 2 then [''tumblintim'', ''jeefq'', ''JerryBox''] else [])\<rparr>"

definition state_true :: state where
  "state_true =
     \<lparr>pbByType = (\<lambda>t. if t = 2 then [(''JerryBox'', JBool True)] else []),
      boardMessageId = JNull,
      lastMatchId = (\<lambda>p. JUndefined),
      top3ByType = (\<lambda>t. [])\<rparr>"

definition win_605 :: match_record where
  "win_605 = \<lparr>m_id = Some ''103'', m_type = JNum (Fin 2), m_time = JNum (Fin 605000),
               m_forfeited = JBool False, m_winner = JStr ''u-jerry''\<rparr>"

definition source_605 :: source where
  "source_605 =
     \<lparr>ranked = (\<lambda>p. if p = ''JerryBox'' then Matches [win_605] else Matches []),
      paged = (\<lambda>p t k. Matches []),
      newest = (\<lambda>p. Matches [])\<rparr>"

section \<open>Invariants of a loop\<close>

lemma foldl_keep:
  assumes "\<And>x st. x \<in> set xs \<Longrightarrow> I st \<Longrightarrow> I (f st x)" and "I st"
  shows "I (foldl f st xs)"
  using assms by (induction xs arbitrary: st) auto

lemma foldl_reach:
  assumes keepI: "\<And>x st. x \<in> set xs \<Longrightarrow> I st \<Longrightarrow> I (f st x)"
    and keepD: "\<And>x st. x \<in> set xs \<Longrightarrow> D st \<Longrightarrow> D (f st x)"
    and hit: "\<And>st. I st \<Longrightarrow> D (f st a)"
    and "a \<in> set xs" and "I st"
  shows "D (foldl f st xs)"
  using assms
proof (induction xs arbitrary: st)
  case Nil
  then show ?case by simp
next
  case (Cons x xs)
  show ?case
  proof (cases "x = a")
    case True
    then have "D (f st x)" using Cons.prems(3,5) by simp
    then have "D (foldl f (f st x) xs)"
      using Cons.prems(2) by (intro foldl_keep [where I = D]) auto
    then show ?thesis by simp
  next
    case False
    then have "a \<in> set xs" using Cons.prems(4) by simp
    moreover have "I (f st x)" using Cons.prems(1,5) by simp
    ultimately have "D (foldl f (f st x) xs)"
      using Cons.prems(1,2,3) by (intro Cons.IH) auto
    then show ?thesis by simp
  qed
qed

section \<open>The validator\<close>

lemma le_zero_iff: "isFinite x \<Longrightarrow> jsnum_le x (Fin 0) = (\<not> jsnum_less (Fin 0) x)"
  by (cases x) auto

lemma strict_eq_truthy: "strict_eq a b \<Longrightarrow> truthy a \<Longrightarrow> truthy b"
  by (induction a b rule: strict_eq.induct) auto

lemma isValidWinForPlayer_iff:
  "isValidWinForPlayer cv m u =
     (finite_positive (Number_js cv (m_time m))
      \<and> \<not> truthy (m_forfeited m)
      \<and> truthy (m_winner m)
      \<and> strict_eq (m_winner m) u)"
proof (cases "isFinite (Number_js cv (m_time m))")
  case True
  then show ?thesis
    using strict_eq_truthy [of "m_winner m" u]
    by (auto simp: isValidWinForPlayer_def finite_positive_def Let_def le_zero_iff)
next
  case False
  then show ?thesis
    by (simp add: isValidWinForPlayer_def finite_positive_def)
qed







text \<open>
  The restriction on the queried identity is needed: queried for the empty string, a match
  whose winner identity is the empty string meets the four conditions and is rejected.
\<close>

lemma empty_identity_rejected:
  "spec_isCountableWin no_coercion empty_winner_match (JStr '''')
   \<and> \<not> isValidWinForPlayer no_coercion empty_winner_match (JStr '''')"
  by (simp add: spec_isCountableWin_def isValidWinForPlayer_def empty_winner_match_def
        finite_positive_def)

section \<open>The resolvers\<close>

lemma valid_time_fin:
  "isValidWinForPlayer cv m u \<Longrightarrow> \<exists>r. Number_js cv (m_time m) = Fin r \<and> 0 < r"
  by (cases "Number_js cv (m_time m)") (auto simp: isValidWinForPlayer_iff finite_positive_def)

lemma validated_times_Cons:
  "validated_times cv u (m # ms) =
     (if isValidWinForPlayer cv m u then fin_val (Number_js cv (m_time m)) # validated_times cv u ms
      else validated_times cv u ms)"
  by (simp add: validated_times_def)

lemma validated_times_Nil: "validated_times cv u [] = []"
  by (simp add: validated_times_def)

lemma validated_times_append:
  "validated_times cv u (xs @ ys) = validated_times cv u xs @ validated_times cv u ys"
  by (simp add: validated_times_def)

lemma rankedLoop_find:
  "rankedLoop cv u ms =
     (case find (\<lambda>m. isValidWinForPlayer cv m u) ms of
        Some m \<Rightarrow> JNum (Number_js cv (m_time m))
      | None \<Rightarrow> JNull)"
  by (induction ms) auto

lemma rankedLoop_hd:
  "rankedLoop cv u ms =
     (case validated_times cv u ms of [] \<Rightarrow> JNull | t # ts \<Rightarrow> JNum (Fin t))"
proof (induction ms)
  case Nil
  show ?case by (simp add: validated_times_Nil)
next
  case (Cons m ms)
  show ?case
  proof (cases "isValidWinForPlayer cv m u")
    case True
    then obtain r where "Number_js cv (m_time m) = Fin r" using valid_time_fin by blast
    with True show ?thesis by (simp add: validated_times_Cons)
  next
    case False
    with Cons show ?thesis by (simp add: validated_times_Cons)
  qed
qed

lemma sorted_Min_hd: "sorted (t # ts) \<Longrightarrow> Min (set (t # ts)) = (t::real)"
  by (auto intro!: Min_eqI)

lemma fastest_first_sorted:
  assumes "fastest_first cv ms"
  shows "sorted (validated_times cv u ms)"
proof -
  let ?P = "\<lambda>a b. \<not> jsnum_less (Number_js cv (m_time b)) (Number_js cv (m_time a))"
  let ?vs = "filter (\<lambda>m. isValidWinForPlayer cv m u) ms"
  have "sorted_wrt ?P ?vs"
    using assms by (simp add: fastest_first_def sorted_wrt_filter)
  moreover have "\<And>a b. a \<in> set ?vs \<Longrightarrow> b \<in> set ?vs \<Longrightarrow> ?P a b \<Longrightarrow>
      fin_val (Number_js cv (m_time a)) \<le> fin_val (Number_js cv (m_time b))"
  proof -
    fix a b assume "a \<in> set ?vs" "b \<in> set ?vs" and p: "?P a b"
    then have "isValidWinForPlayer cv a u" "isValidWinForPlayer cv b u" by auto
    then obtain x y where "Number_js cv (m_time a) = Fin x" "Number_js cv (m_time b) = Fin y"
      using valid_time_fin by blast
    with p show "fin_val (Number_js cv (m_time a)) \<le> fin_val (Number_js cv (m_time b))"
      by simp
  qed
  ultimately have "sorted_wrt (\<lambda>a b. fin_val (Number_js cv (m_time a)) \<le> fin_val (Number_js cv (m_time b))) ?vs"
    by (rule sorted_wrt_mono_rel [rotated]) blast
  then show ?thesis
    by (simp add: validated_times_def sorted_wrt_map)
qed

lemma scanPage_foldl:
  "scanPage cv u ms best = foldl lower best (validated_times cv u ms)"
proof (induction ms arbitrary: best)
  case Nil
  show ?case by (simp add: validated_times_Nil)
next
  case (Cons m ms)
  show ?case
  proof (cases "isValidWinForPlayer cv m u")
    case True
    then obtain r where r: "Number_js cv (m_time m) = Fin r" "0 < r"
      using valid_time_fin by blast
    with True Cons show ?thesis
      by (simp add: validated_times_Cons lower_def)
  next
    case False
    with Cons show ?thesis by (simp add: validated_times_Cons)
  qed
qed

lemma foldl_lower_Fin:
  "foldl lower (Fin b) ts = Fin (Min (set (b # ts)))"
proof (induction ts arbitrary: b)
  case Nil
  show ?case by simp
next
  case (Cons t ts)
  have "Min (insert b (insert t (set ts))) = Min (insert (min b t) (set ts))"
    by (cases "set ts = {}") (simp_all add: min.assoc)
  then show ?case
    using Cons [of t] Cons [of b] by (auto simp: lower_def min_def)
qed

lemma foldl_lower_PosInf:
  "foldl lower PosInf ts = (if ts = [] then PosInf else Fin (Min (set ts)))"
  by (cases ts) (simp_all add: lower_def foldl_lower_Fin)

lemma stop_after_ge: "page \<le> MAX_PAGES \<Longrightarrow> page \<le> stop_after pages page"
  by (auto simp: stop_after_def find_Some_iff split: option.splits)

lemma stop_after_le: "stop_after pages page \<le> MAX_PAGES"
  by (auto simp: stop_after_def find_Some_iff split: option.splits)

lemma stop_after_step:
  "page < MAX_PAGES \<Longrightarrow>
     stop_after pages page =
       (if page_stops (pages page) then Suc page else stop_after pages (Suc page))"
  by (simp add: stop_after_def upt_conv_Cons)

lemma stop_after_end: "stop_after pages MAX_PAGES = MAX_PAGES"
  by (simp add: stop_after_def)

lemma matches_between_step:
  "a < b \<Longrightarrow> matches_between pages a b = page_matches (pages a) @ matches_between pages (Suc a) b"
  by (simp add: matches_between_def upt_conv_Cons)

lemma matches_between_empty: "matches_between pages a a = []"
  by (simp add: matches_between_def)

lemma scanPages_general:
  "page \<le> MAX_PAGES \<Longrightarrow>
   scanPages cv u pages page best =
     (let n = stop_after pages page
      in if page < n \<and> pages (n - 1) = Threw then Inl RequestFailed
         else Inr (foldl lower best (validated_times cv u (matches_between pages page n)), n))"
proof (induction cv u pages page best rule: scanPages.induct)
  case (1 cv u pages page best)
  show ?case
  proof (cases "page < MAX_PAGES")
    case False
    with "1.prems" have "page = MAX_PAGES" by simp
    then show ?thesis
      by (simp add: scanPages.simps [of cv u pages MAX_PAGES best] stop_after_end
            matches_between_empty validated_times_Nil)
  next
    case lt: True
    show ?thesis
    proof (cases "page_stops (pages page)")
      case True
      then have n: "stop_after pages page = Suc page"
        using lt by (simp add: stop_after_step)
      have mb: "matches_between pages page (Suc page) = page_matches (pages page)"
        by (simp add: matches_between_step matches_between_empty)
      show ?thesis
        using True lt
        by (subst scanPages.simps)
           (auto simp: n mb page_stops_def validated_times_Nil scanPage_foldl Let_def
                 split: response.splits option.splits)
    next
      case False
      then obtain ms lastId where ms: "pages page = Matches ms" "ms \<noteq> []" "m_id (last ms) = Some lastId"
        by (auto simp: page_stops_def split: response.splits)
      let ?n = "stop_after pages (Suc page)"
      have n: "stop_after pages page = ?n"
        using lt False by (simp add: stop_after_step)
      have ge: "Suc page \<le> ?n" using lt by (intro stop_after_ge) simp
      have ih: "scanPages cv u pages (Suc page) (scanPage cv u ms best) =
         (if Suc page < ?n \<and> pages (?n - 1) = Threw then Inl RequestFailed
          else Inr (foldl lower (scanPage cv u ms best)
                      (validated_times cv u (matches_between pages (Suc page) ?n)), ?n))"
        using "1.IH" [OF lt ms(1) ms(2) refl ms(3)] lt by (simp add: Let_def)
      have mb: "matches_between pages page ?n = ms @ matches_between pages (Suc page) ?n"
        using ge ms by (simp add: matches_between_step)
      have last: "Suc page = ?n \<Longrightarrow> pages (?n - 1) \<noteq> Threw"
        using ms by (metis diff_Suc_1 response.distinct(3))
      have "scanPages cv u pages page best = scanPages cv u pages (Suc page) (scanPage cv u ms best)"
        using lt ms by (subst scanPages.simps) (simp add: Let_def)
      also note ih
      also have "(if Suc page < ?n \<and> pages (?n - 1) = Threw then Inl RequestFailed
          else Inr (foldl lower (scanPage cv u ms best)
                      (validated_times cv u (matches_between pages (Suc page) ?n)), ?n)) =
        (if page < ?n \<and> pages (?n - 1) = Threw then Inl RequestFailed
          else Inr (foldl lower best (validated_times cv u (matches_between pages page ?n)), ?n))"
        using ge last
        by (auto simp: mb validated_times_append scanPage_foldl)
      finally show ?thesis by (simp add: n Let_def)
    qed
  qed
qed

lemma scan_length_stop_after: "scan_length pages = stop_after pages 0"
  by (simp add: scan_length_def stop_after_def)

lemma matches_upto_between: "matches_upto pages n = matches_between pages 0 n"
  by (simp add: matches_upto_def matches_between_def)

lemma scan_length_pos: "0 < scan_length pages"
  by (auto simp: scan_length_def MAX_PAGES_def split: option.splits)

text \<open>
  Claim C8. On a page of matches, \<^verbatim>\<open>fetchRankedPB\<close> returns the completion time of the
  first match in page order that the validator accepts, and \<^verbatim>\<open>null\<close> if it accepts none;
  when the page is ordered fastest-first, that value is the minimum of the validated
  times of the whole page.
\<close>

theorem fetchRankedPB_first_valid_and_minimum:
  "fetchRankedPB cv uuidByName (Matches ms) player =
     Inr (case find (\<lambda>m. isValidWinForPlayer cv m (uuidByName player)) ms of
            Some m \<Rightarrow> JNum (Number_js cv (m_time m))
          | None \<Rightarrow> JNull)
   \<and> (fastest_first cv ms \<longrightarrow>
        fetchRankedPB cv uuidByName (Matches ms) player =
          Inr (min_time (validated_times cv (uuidByName player) ms)))"
proof
  show "fetchRankedPB cv uuidByName (Matches ms) player =
     Inr (case find (\<lambda>m. isValidWinForPlayer cv m (uuidByName player)) ms of
            Some m \<Rightarrow> JNum (Number_js cv (m_time m))
          | None \<Rightarrow> JNull)"
    by (cases ms) (simp_all add: fetchRankedPB_def rankedLoop_find del: rankedLoop.simps)
next
  show "fastest_first cv ms \<longrightarrow>
        fetchRankedPB cv uuidByName (Matches ms) player =
          Inr (min_time (validated_times cv (uuidByName player) ms))"
  proof
    assume "fastest_first cv ms"
    then have s: "sorted (validated_times cv (uuidByName player) ms)"
      by (rule fastest_first_sorted)
    have "rankedLoop cv (uuidByName player) ms = min_time (validated_times cv (uuidByName player) ms)"
    proof (cases "validated_times cv (uuidByName player) ms")
      case Nil
      then show ?thesis by (simp add: rankedLoop_hd min_time_def)
    next
      case (Cons t ts)
      with s have "Min (set (t # ts)) = t" using sorted_Min_hd by metis
      with Cons show ?thesis by (simp add: rankedLoop_hd min_time_def)
    qed
    then show "fetchRankedPB cv uuidByName (Matches ms) player =
          Inr (min_time (validated_times cv (uuidByName player) ms))"
      by (cases ms) (simp_all add: fetchRankedPB_def validated_times_Nil min_time_def del: rankedLoop.simps)
  qed
qed

theorem fetchRankedPB_first_valid_and_minimum_witness:
  "fastest_first no_coercion [empty_winner_match, win_300, win_580]
   \<and> fetchRankedPB no_coercion one_uuid (Matches [empty_winner_match, win_300, win_580])
         ''JerryBox'' = Inr (JNum (Fin 300000))"
proof -
  have h: "fastest_first no_coercion [empty_winner_match, win_300, win_580]"
    by (simp add: fastest_first_def empty_winner_match_def win_300_def win_580_def)
  show ?thesis
    using h fetchRankedPB_first_valid_and_minimum
      [of no_coercion one_uuid "[empty_winner_match, win_300, win_580]" "''JerryBox''"]
    by (simp add: validated_times_def min_time_def isValidWinForPlayer_iff finite_positive_def
          one_uuid_def empty_winner_match_def win_300_def win_580_def)
qed

lemma fetchCasualPrivatePB_eq:
  "fetchCasualPrivatePB cv uuidByName pages player =
     (if \<not> truthy (uuidByName player) then Inr (JNull, 0)
      else if pages (scan_length pages - 1) = Threw then Inl RequestFailed
      else Inr (min_time (validated_times cv (uuidByName player)
                            (matches_upto pages (scan_length pages))),
                scan_length pages))"
proof -
  have "scanPages cv (uuidByName player) pages 0 PosInf =
     (if pages (scan_length pages - 1) = Threw then Inl RequestFailed
      else Inr (foldl lower PosInf (validated_times cv (uuidByName player)
                  (matches_upto pages (scan_length pages))), scan_length pages))"
    using scanPages_general [of 0 cv "uuidByName player" pages PosInf] scan_length_pos [of pages]
    by (simp add: Let_def scan_length_stop_after matches_upto_between)
  then show ?thesis
    by (simp add: fetchCasualPrivatePB_def Let_def foldl_lower_PosInf min_time_def)
qed

text \<open>
  Claim C3, as the code has it. With no known identity for the player the bounded scan
  returns \<^verbatim>\<open>null\<close> without a request. Otherwise it requests pages in order and stops
  at the first page that is not a non-empty array, or right after the first page whose
  last match has no identifier, or after 20 pages, whichever comes first; if the request
  at which it stops throws, the call throws; else it returns the minimum of the validated
  times over the pages requested, \<^verbatim>\<open>null\<close> if there is none.
\<close>

theorem fetchCasualPrivatePB_scan:
  "fetchCasualPrivatePB cv uuidByName pages player =
     (if \<not> truthy (uuidByName player) then Inr (JNull, 0)
      else if pages (scan_length pages - 1) = Threw then Inl RequestFailed
      else Inr (min_time (validated_times cv (uuidByName player)
                            (matches_upto pages (scan_length pages))),
                scan_length pages))"
proof (cases "truthy (uuidByName player)")
  case False
  then show ?thesis by (simp add: fetchCasualPrivatePB_def)
next
  case True
  let ?n = "scan_length pages"
  let ?ts = "validated_times cv (uuidByName player) (matches_upto pages ?n)"
  have n: "stop_after pages 0 = ?n" "0 < ?n"
    using scan_length_pos [of pages] by (simp_all add: scan_length_stop_after)
  have scan: "scanPages cv (uuidByName player) pages 0 PosInf =
     (if pages (?n - 1) = Threw then Inl RequestFailed else Inr (foldl lower PosInf ?ts, ?n))"
    using scanPages_general [of 0 cv "uuidByName player" pages PosInf] n
    by (simp add: Let_def matches_upto_between)
  have best: "(if foldl lower PosInf ?ts \<noteq> PosInf then JNum (foldl lower PosInf ?ts) else JNull)
      = min_time ?ts"
    by (simp add: foldl_lower_PosInf min_time_def)
  show ?thesis
    using True by (simp add: fetchCasualPrivatePB_def Let_def scan best)
qed

theorem fetchCasualPrivatePB_scan_witness:
  "fetchCasualPrivatePB no_coercion one_uuid pages_plain ''JerryBox''
     = Inr (JNum (Fin 300000), 3)"
  using fetchCasualPrivatePB_scan [of no_coercion one_uuid pages_plain "''JerryBox''"]
  by (simp add: one_uuid_def pages_plain_def scan_length_def page_stops_def MAX_PAGES_def
        matches_upto_def validated_times_def min_time_def isValidWinForPlayer_iff
        finite_positive_def win_580_def win_300_def upt_rec)

text \<open>
  Claim C3 as stated fails on a first page whose last match has no identifier: the code
  stops after that page with one request and returns its 500000, while the stated rule
  (stop only at an empty page or at the ceiling) scans three pages, whose minimum validated
  time is 300000.
\<close>

theorem scan_stops_without_cursor:
  "fetchCasualPrivatePB no_coercion one_uuid pages_no_cursor ''JerryBox''
       = Inr (JNum (Fin 500000), 1)
   \<and> spec_scan_length pages_no_cursor = 3
   \<and> min_time (validated_times no_coercion (one_uuid ''JerryBox'')
        (matches_upto pages_no_cursor (spec_scan_length pages_no_cursor))) = JNum (Fin 300000)"
proof -
  have a: "spec_scan_length pages_no_cursor = 3"
    by (simp add: spec_scan_length_def spec_page_stops_def pages_no_cursor_def MAX_PAGES_def upt_rec)
  have b: "matches_upto pages_no_cursor 3 = [win_no_id, win_300]"
    by (simp add: matches_upto_def pages_no_cursor_def upt_rec)
  have c: "fetchCasualPrivatePB no_coercion one_uuid pages_no_cursor ''JerryBox''
       = Inr (JNum (Fin 500000), 1)"
    by (simp add: fetchCasualPrivatePB_def one_uuid_def scanPages.simps [of _ _ _ 0]
          pages_no_cursor_def MAX_PAGES_def win_no_id_def isValidWinForPlayer_iff
          finite_positive_def)
  show ?thesis
    by (simp add: a b c validated_times_def min_time_def isValidWinForPlayer_iff
        finite_positive_def win_no_id_def win_300_def one_uuid_def)
qed

section \<open>What the resolvers return, and the ranking\<close>

text \<open>A time that \<^verbatim>\<open>fetchPBTime\<close> returns is finite and strictly positive.\<close>

lemma validated_times_positive: "t \<in> set (validated_times cv u ms) \<Longrightarrow> 0 < t"
  using valid_time_fin by (fastforce simp: validated_times_def)

lemma min_time_positive:
  assumes "min_time (validated_times cv u ms) = JNum l"
  shows "finite_positive l"
proof -
  let ?ts = "validated_times cv u ms"
  from assms have ne: "?ts \<noteq> []" and l: "l = Fin (Min (set ?ts))"
    by (auto simp: min_time_def split: if_splits)
  from ne have "Min (set ?ts) \<in> set ?ts" by (intro Min_in) auto
  then have "0 < Min (set ?ts)" by (rule validated_times_positive)
  with l show ?thesis by (simp add: finite_positive_def)
qed

lemma rankedLoop_positive: "rankedLoop cv u ms = JNum l \<Longrightarrow> finite_positive l"
  using validated_times_positive [of _ cv u ms]
  by (auto simp: rankedLoop_hd finite_positive_def split: list.splits)

lemma fetchPBTime_finite_positive:
  assumes "fetchPBTime cv uu src p t = Inr (JNum l)"
  shows "finite_positive l"
proof -
  consider (r) "t = 2" | (c) "t \<noteq> 2" "t = 1 \<or> t = 3" | (o) "t \<noteq> 2" "\<not> (t = 1 \<or> t = 3)" by blast
  then show ?thesis
  proof cases
    case r
    with assms show ?thesis
      by (auto simp: fetchPBTime_def fetchRankedPB_def rankedLoop_positive
            split: response.splits if_splits)
  next
    case c
    with assms show ?thesis
      by (auto simp: fetchPBTime_def fetchCasualPrivatePB_eq min_time_positive
            split: if_splits)
  next
    case o
    with assms show ?thesis by (simp add: fetchPBTime_def)
  qed
qed

text \<open>
  The ranking is ascending, and the place of a ranked player is its 1-based rank: one more
  than the number of ranked entries that are strictly faster plus the number of ranked
  entries with the same time that are stored before it (the sort is stable).
\<close>

lemma ranking_rankable: "ranking cv obj = sort_key (\<lambda>(name, v). fin_val v) (rankable cv obj)"
  by (simp add: ranking_def rankable_def)

lemma ranking_ascending: "sorted (map (\<lambda>(name, v). fin_val v) (ranking cv obj))"
  by (simp add: ranking_rankable)

lemma findIndex_takeWhile:
  "findIndex f xs = (if \<exists>x \<in> set xs. f x then int (length (takeWhile (\<lambda>x. \<not> f x) xs)) else -1)"
  by (induction xs) (auto simp: Let_def)

lemma takeWhile_first:
  "x \<notin> set a \<Longrightarrow> takeWhile (\<lambda>y. y \<noteq> x) (a @ x # b) = a"
  by (induction a) auto

lemma first_split_unique:
  assumes "x \<notin> set a" "x \<notin> set c" "a @ x # b = c @ x # d"
  shows "a = c"
proof -
  have "takeWhile (\<lambda>y. y \<noteq> x) (a @ x # b) = a"
    using assms(1) by (rule takeWhile_first)
  moreover have "takeWhile (\<lambda>y. y \<noteq> x) (c @ x # d) = c"
    using assms(2) by (rule takeWhile_first)
  ultimately show ?thesis using assms(3) by simp
qed

lemma stable_position:
  fixes f :: "'a \<Rightarrow> 'b::linorder"
  assumes "x \<in> set xs"
  shows "length (takeWhile (\<lambda>y. y \<noteq> x) (sort_key f xs)) =
           length (filter (\<lambda>y. f y < f x) xs)
           + length (filter (\<lambda>y. f y = f x) (takeWhile (\<lambda>y. y \<noteq> x) xs))"
proof -
  let ?R = "sort_key f xs"
  have "x \<in> set ?R" using assms by simp
  then obtain A B where R: "?R = A @ x # B" and xA: "x \<notin> set A"
    by (meson split_list_first)
  have tw: "takeWhile (\<lambda>y. y \<noteq> x) ?R = A"
    using xA by (simp add: R takeWhile_first)
  have "sorted (map f ?R)" by simp
  then have A_le: "\<forall>a \<in> set A. f a \<le> f x" and B_ge: "\<forall>b \<in> set B. f x \<le> f b"
    unfolding R by (auto simp: sorted_append)
  have "filter (\<lambda>y. f y < f x) ?R = filter (\<lambda>y. f y < f x) A"
    unfolding R using B_ge by (auto simp: filter_empty_conv)
  moreover have "length (filter (\<lambda>y. f y < f x) ?R) = length (filter (\<lambda>y. f y < f x) xs)"
    by (simp add: filter_sort)
  ultimately have lt: "length (filter (\<lambda>y. f y < f x) A) = length (filter (\<lambda>y. f y < f x) xs)"
    by simp
  obtain C D where xs: "xs = C @ x # D" and xC: "x \<notin> set C"
    using assms by (meson split_list_first)
  have twx: "takeWhile (\<lambda>y. y \<noteq> x) xs = C"
    using xC by (simp add: xs takeWhile_first)
  have "filter (\<lambda>y. f y = f x) ?R = filter (\<lambda>y. f y = f x) xs"
    by (rule sort_key_stable)
  then have both: "filter (\<lambda>y. f y = f x) A @ x # filter (\<lambda>y. f y = f x) B =
             filter (\<lambda>y. f y = f x) C @ x # filter (\<lambda>y. f y = f x) D"
    unfolding R by (subst (asm) xs) simp
  have eq: "filter (\<lambda>y. f y = f x) A = filter (\<lambda>y. f y = f x) C"
  proof (rule first_split_unique [where x = x])
    show "x \<notin> set (filter (\<lambda>y. f y = f x) A)" using xA by simp
    show "x \<notin> set (filter (\<lambda>y. f y = f x) C)" using xC by simp
    show "filter (\<lambda>y. f y = f x) A @ x # filter (\<lambda>y. f y = f x) B =
             filter (\<lambda>y. f y = f x) C @ x # filter (\<lambda>y. f y = f x) D"
      by (rule both)
  qed
  have "filter (\<lambda>y. \<not> f y < f x) A = filter (\<lambda>y. f y = f x) A"
    using A_le by (intro filter_cong) auto
  then have "length A = length (filter (\<lambda>y. f y < f x) A) + length (filter (\<lambda>y. f y = f x) A)"
    using sum_length_filter_compl [of "\<lambda>y. f y < f x" A] by simp
  then show ?thesis by (simp add: tw twx lt eq)
qed

lemma placement_of_rank:
  assumes d: "distinct (map fst (pbByType s t))"
    and e: "(p, x) \<in> set (rankable cv (pbByType s t))"
  shows "placement_of cv s t p =
           1 + int (length (filter (\<lambda>(name, v). fin_val v < fin_val x) (rankable cv (pbByType s t))))
             + int (length (filter (\<lambda>(name, v). fin_val v = fin_val x)
                      (takeWhile (\<lambda>(name, v). name \<noteq> p) (rankable cv (pbByType s t)))))"
proof -
  let ?xs = "rankable cv (pbByType s t)"
  let ?f = "\<lambda>(name, v). fin_val v"
  have dx: "distinct (map fst ?xs)"
  proof -
    have m: "map fst (map (\<lambda>(name, val). (name, Number_js cv val)) (pbByType s t)) = map fst (pbByType s t)"
      by (simp add: case_prod_unfold comp_def)
    have "distinct (map fst (map (\<lambda>(name, val). (name, Number_js cv val)) (pbByType s t)))"
      unfolding m by (rule d)
    then show ?thesis
      unfolding rankable_def by (rule distinct_map_filter)
  qed
  have uniq: "(case y of (name, v) \<Rightarrow> name \<noteq> p) = (y \<noteq> (p, x))" if "y \<in> set ?xs" for y
  proof -
    obtain n v where y: "y = (n, v)" by (cases y)
    have "v = x" if "n = p"
      using eq_key_imp_eq_value [OF dx _ e, of v] \<open>y \<in> set ?xs\<close> that unfolding y by simp
    then show ?thesis by (auto simp: y)
  qed
  have tw1: "takeWhile (\<lambda>y. \<not> (case y of (name, v) \<Rightarrow> name = p)) (sort_key ?f ?xs) =
        takeWhile (\<lambda>y. y \<noteq> (p, x)) (sort_key ?f ?xs)"
  proof (rule takeWhile_cong [OF refl])
    fix y assume "y \<in> set (sort_key ?f ?xs)"
    then have "y \<in> set ?xs" by simp
    from uniq [OF this] show "(\<not> (case y of (name, v) \<Rightarrow> name = p)) = (y \<noteq> (p, x))"
      by (cases y) simp
  qed
  have tw2: "takeWhile (\<lambda>(name, v). name \<noteq> p) ?xs = takeWhile (\<lambda>y. y \<noteq> (p, x)) ?xs"
  proof (rule takeWhile_cong [OF refl])
    fix y assume "y \<in> set ?xs"
    from uniq [OF this] show "(case y of (name, v) \<Rightarrow> name \<noteq> p) = (y \<noteq> (p, x))" .
  qed
  have ex: "\<exists>y \<in> set (sort_key ?f ?xs). case y of (name, v) \<Rightarrow> name = p"
    by (rule bexI [where x = "(p, x)"]) (use e in simp_all)
  have "placement_of cv s t p = int (length (takeWhile (\<lambda>y. y \<noteq> (p, x)) (sort_key ?f ?xs))) + 1"
    using ex by (simp add: placement_of_def ranking_rankable findIndex_takeWhile tw1)
  also have "length (takeWhile (\<lambda>y. y \<noteq> (p, x)) (sort_key ?f ?xs)) =
      length (filter (\<lambda>y. ?f y < ?f (p, x)) ?xs)
      + length (filter (\<lambda>y. ?f y = ?f (p, x)) (takeWhile (\<lambda>y. y \<noteq> (p, x)) ?xs))"
    using e by (rule stable_position)
  finally show ?thesis
    unfolding tw2 by (simp add: case_prod_unfold)
qed

section \<open>Steps of the updater\<close>

lemma finite_positive_iff:
  "finite_positive x = (isFinite x \<and> \<not> jsnum_le x (Fin 0))"
  by (cases x) (auto simp: finite_positive_def)

lemma pb_player_skip:
  "\<not> is_number latest \<Longrightarrow> pb_player cv t old latest p st = st"
  by (cases latest; cases st) (simp_all add: pb_player_def)

lemma pb_player_cold:
  "\<not> finite_positive (Number_js cv (pb_entry s t p)) \<Longrightarrow>
   pb_player cv t old (JNum l) p (s, tr) = (set_pb s t p (JNum l), tr)"
  by (auto simp: pb_player_def finite_positive_iff pb_entry_def Let_def)

lemma pb_player_keep:
  "finite_positive (Number_js cv (pb_entry s t p)) \<Longrightarrow>
   \<not> jsnum_less l (Number_js cv (pb_entry s t p)) \<Longrightarrow>
   pb_player cv t old (JNum l) p (s, tr) = (s, tr)"
  by (auto simp: pb_player_def finite_positive_iff pb_entry_def Let_def)

lemma pb_player_improve:
  "finite_positive (Number_js cv (pb_entry s t p)) \<Longrightarrow>
   jsnum_less l (Number_js cv (pb_entry s t p)) \<Longrightarrow>
   pb_player cv t old (JNum l) p (s, tr) =
     (set_pb s t p (JNum l),
      tr @ [Save (set_pb s t p (JNum l))]
         @ map Send (improvement_messages old
             (findIndex (\<lambda>(name, v). name = p) (ranking cv (pbByType (set_pb s t p (JNum l)) t)) + 1)
             t p l (Number_js cv (pb_entry s t p))))"
  by (auto simp: pb_player_def finite_positive_iff pb_entry_def Let_def)

lemma get_entry_update:
  "get_entry (AList.update k v al) k' = (if k' = k then v else get_entry al k')"
  by (simp add: get_entry_def update_conv')

lemma pb_entry_set_pb:
  "pb_entry (set_pb s t p v) t' p' = (if t' = t \<and> p' = p then v else pb_entry s t' p')"
  by (simp add: pb_entry_def set_pb_def get_entry_update)

lemma sent_append: "sent (a @ b) = sent a @ sent b"
  by (simp add: sent_def)

lemma sent_Save: "sent (Save s # tr) = sent tr"
  by (simp add: sent_def)

lemma sent_EditBoard: "sent (EditBoard s # tr) = sent tr"
  by (simp add: sent_def)

lemma sent_Nil: "sent [] = []"
  by (simp add: sent_def)

lemma sent_map_Send: "sent (map Send ms) = ms"
  by (induction ms) (simp_all add: sent_def)

lemma improvement_messages_shape:
  "improvement_messages old place t p l prev =
     (if 1 \<le> place \<and> place \<le> 3 \<and> array_get old (place - 1) \<noteq> Some p
      then [the (getPlacementMessage place p (typeLabel (type_value t)))] else [])
     @ [NewPB (typeLabel (type_value t)) p l prev]"
  by (auto simp: improvement_messages_def getPlacementMessage_def Let_def)

section \<open>What a tick shows about one player and match type\<close>

lemma typeLabel_tracked:
  "t \<in> set TRACK_TYPES \<Longrightarrow> typeLabel (type_value t) = typeLabel (type_value t0) \<Longrightarrow> t = t0"
  by (auto simp: TRACK_TYPES_def typeLabel_def type_value_def split: if_splits)

lemma pb_messages_about_append:
  "pb_messages_about p t (a @ b) = pb_messages_about p t a @ pb_messages_about p t b"
  by (simp add: pb_messages_about_def sent_append)

lemma pb_messages_about_Save: "pb_messages_about p t (Save s # tr) = pb_messages_about p t tr"
  by (simp add: pb_messages_about_def sent_Save)

lemma pb_messages_about_EditBoard: "pb_messages_about p t (EditBoard s # tr) = pb_messages_about p t tr"
  by (simp add: pb_messages_about_def sent_EditBoard)

lemma pb_messages_about_Nil: "pb_messages_about p t [] = []"
  by (simp add: pb_messages_about_def sent_Nil)

lemma improvement_messages_about:
  "\<forall>m \<in> set (improvement_messages old place t p l prev).
      msg_player m = p \<and> msg_label m = typeLabel (type_value t)"
  by (auto simp: improvement_messages_shape getPlacementMessage_def)

lemma pb_messages_about_improvement:
  "pb_messages_about p0 t0 (map Send (improvement_messages old place t p l prev)) =
     (if p = p0 \<and> typeLabel (type_value t) = typeLabel (type_value t0)
      then improvement_messages old place t p l prev else [])"
proof (cases "p = p0 \<and> typeLabel (type_value t) = typeLabel (type_value t0)")
  case True
  then have "filter (\<lambda>m. msg_player m = p0 \<and> msg_label m = typeLabel (type_value t0))
      (improvement_messages old place t p l prev) = improvement_messages old place t p l prev"
    using improvement_messages_about [of old place t p l prev] by (intro filter_True) auto
  with True show ?thesis by (simp add: pb_messages_about_def sent_map_Send)
next
  case False
  then have "filter (\<lambda>m. msg_player m = p0 \<and> msg_label m = typeLabel (type_value t0))
      (improvement_messages old place t p l prev) = []"
    using improvement_messages_about [of old place t p l prev] by (intro filter_False) auto
  with False show ?thesis by (auto simp: pb_messages_about_def sent_map_Send)
qed

text \<open>The view after one step of the updater, in each of its four cases.\<close>

lemma pb_view_skip:
  "\<not> is_number latest \<Longrightarrow> pb_view p0 t0 (pb_player cv t old latest p st) = pb_view p0 t0 st"
  by (simp add: pb_player_skip)

lemma pb_view_other:
  assumes "t \<in> set TRACK_TYPES" and "p \<noteq> p0 \<or> t \<noteq> t0"
  shows "pb_view p0 t0 (pb_player cv t old latest p st) = pb_view p0 t0 st"
proof (cases latest)
  case (JNum l)
  obtain s tr where st: "st = (s, tr)" by (cases st)
  have lab: "\<not> (p = p0 \<and> typeLabel (type_value t) = typeLabel (type_value t0))"
    using assms typeLabel_tracked by blast
  have ne: "\<not> (t0 = t \<and> p0 = p)" using assms by auto
  consider (cold) "\<not> finite_positive (Number_js cv (pb_entry s t p))"
    | (improve) "finite_positive (Number_js cv (pb_entry s t p))"
        "jsnum_less l (Number_js cv (pb_entry s t p))"
    | (keep) "finite_positive (Number_js cv (pb_entry s t p))"
        "\<not> jsnum_less l (Number_js cv (pb_entry s t p))"
    by blast
  then show ?thesis
  proof cases
    case cold
    then show ?thesis using ne
      by (auto simp: JNum st pb_player_cold pb_view_def pb_entry_set_pb)
  next
    case improve
    then show ?thesis using ne lab
      by (auto simp: JNum st pb_player_improve pb_view_def pb_entry_set_pb
            pb_messages_about_append pb_messages_about_Save pb_messages_about_improvement)
  next
    case keep
    then show ?thesis by (simp add: JNum st pb_player_keep)
  qed
qed (simp_all add: pb_view_skip)

lemma pb_view_type:
  "pb_view p0 t0 (pb_type cv uu src st t) =
   pb_view p0 t0 (foldl (\<lambda>st' p. pb_player cv t (top3ByType (fst st) t)
                            (catch_null (fetchPBTime cv uu src p t)) p st') st players)"
  by (simp add: pb_type_def pb_view_def Let_def pb_entry_def split: prod.splits)

lemma pb_view_tick:
  "pb_view p0 t0 (pb_tick cv uu src board s) =
   pb_view p0 t0 (foldl (pb_type cv uu src) (s, []) TRACK_TYPES)"
  by (simp add: pb_tick_def pb_view_def Let_def pb_messages_about_append
        pb_messages_about_Save pb_messages_about_EditBoard pb_messages_about_Nil
        split: prod.splits)

text \<open>An invariant of the view that every step for the pair keeps is kept by a tick.\<close>

lemma pb_tick_keep:
  assumes step: "\<And>old st. J (pb_view p0 t0 st) \<Longrightarrow>
      J (pb_view p0 t0 (pb_player cv t0 old (catch_null (fetchPBTime cv uu src p0 t0)) p0 st))"
    and init: "J (pb_view p0 t0 (s, []))"
  shows "J (pb_view p0 t0 (pb_tick cv uu src board s))"
proof -
  have any: "J (pb_view p0 t0 (pb_player cv t old (catch_null (fetchPBTime cv uu src p t)) p st))"
    if "t \<in> set TRACK_TYPES" "J (pb_view p0 t0 st)" for t p old st
  proof (cases "p = p0 \<and> t = t0")
    case True
    then show ?thesis using step that by simp
  next
    case False
    then show ?thesis using that by (simp add: pb_view_other)
  qed
  have ty: "J (pb_view p0 t0 (pb_type cv uu src st t))"
    if "t \<in> set TRACK_TYPES" "J (pb_view p0 t0 st)" for t st
    unfolding pb_view_type
    by (rule foldl_keep [where I = "\<lambda>st. J (pb_view p0 t0 st)"]) (use that any in auto)
  show ?thesis
    unfolding pb_view_tick
    by (rule foldl_keep [where I = "\<lambda>st. J (pb_view p0 t0 st)"]) (use ty init in auto)
qed

lemma jsnum_less_irrefl: "\<not> jsnum_less x x"
  by (cases x) auto

lemma jsnum_less_le: "jsnum_less x y \<Longrightarrow> jsnum_le x y"
  by (cases x; cases y) auto

lemma jsnum_le_refl: "isFinite x \<Longrightarrow> jsnum_le x x"
  by (cases x) auto

lemma pb_view_same:
  "pb_view p t (pb_player cv t old (JNum l) p (s, tr)) =
     (let prev = Number_js cv (pb_entry s t p)
      in if \<not> finite_positive prev then (JNum l, pb_messages_about p t tr)
         else if jsnum_less l prev then
           (JNum l, pb_messages_about p t tr @
              improvement_messages old
                (findIndex (\<lambda>(name, v). name = p)
                   (ranking cv (pbByType (set_pb s t p (JNum l)) t)) + 1)
                t p l prev)
         else (pb_entry s t p, pb_messages_about p t tr))"
proof -
  consider (cold) "\<not> finite_positive (Number_js cv (pb_entry s t p))"
    | (improve) "finite_positive (Number_js cv (pb_entry s t p))"
        "jsnum_less l (Number_js cv (pb_entry s t p))"
    | (keep) "finite_positive (Number_js cv (pb_entry s t p))"
        "\<not> jsnum_less l (Number_js cv (pb_entry s t p))"
    by blast
  then show ?thesis
  proof cases
    case cold
    then show ?thesis
      by (simp add: pb_player_cold pb_view_def pb_entry_set_pb)
  next
    case improve
    then show ?thesis
      by (simp add: pb_player_improve pb_view_def pb_entry_set_pb pb_messages_about_append
            pb_messages_about_Save pb_messages_about_improvement)
  next
    case keep
    then show ?thesis
      by (simp add: pb_player_keep pb_view_def)
  qed
qed

lemma pb_tick_entry_bounded:
  assumes fp: "finite_positive (Number_js cv (pb_entry s t p))"
  shows "jsnum_le (Number_js cv (pb_entry (fst (pb_tick cv uu src board s)) t p))
           (Number_js cv (pb_entry s t p))"
proof -
  let ?a = "pb_entry s t p"
  let ?L = "catch_null (fetchPBTime cv uu src p t)"
  let ?J = "\<lambda>v. fst v = ?a \<or> (\<exists>l. ?L = JNum l \<and> fst v = JNum l \<and> jsnum_less l (Number_js cv ?a))"
  have step: "?J (pb_view p t (pb_player cv t old ?L p st))" if "?J (pb_view p t st)" for old st
  proof (cases ?L)
    case (JNum l)
    obtain s' tr where st: "st = (s', tr)" by (cases st)
    from that have "pb_entry s' t p = ?a \<or> (pb_entry s' t p = JNum l \<and> jsnum_less l (Number_js cv ?a))"
      by (auto simp: st pb_view_def JNum)
    then show ?thesis
    proof
      assume "pb_entry s' t p = ?a"
      then show ?thesis using fp
        by (auto simp: JNum st pb_view_same Let_def)
    next
      assume "pb_entry s' t p = JNum l \<and> jsnum_less l (Number_js cv ?a)"
      then show ?thesis
        by (auto simp: JNum st pb_view_same Let_def jsnum_less_irrefl)
    qed
  qed (use that in \<open>simp_all add: pb_view_skip\<close>)
  have "?J (pb_view p t (pb_tick cv uu src board s))"
    by (rule pb_tick_keep [where J = ?J]) (use step in \<open>auto simp: pb_view_def\<close>)
  then show ?thesis
    using fp by (auto simp: pb_view_def jsnum_less_le jsnum_le_refl finite_positive_def)
qed

lemma pb_tick_skip:
  assumes "\<not> is_number (catch_null (fetchPBTime cv uu src p t))"
  shows "pb_view p t (pb_tick cv uu src board s) = (pb_entry s t p, [])"
  by (rule pb_tick_keep [where J = "\<lambda>v. v = (pb_entry s t p, [])"])
     (use assms in \<open>simp_all add: pb_player_skip pb_view_def pb_messages_about_Nil\<close>)

section \<open>A tick at the turn of one player, and ranks\<close>

lemma pb_tick_silent:
  assumes nfp: "\<not> finite_positive (Number_js cv (pb_entry s t p))"
  shows "pb_messages_about p t (snd (pb_tick cv uu src board s)) = []"
proof -
  let ?a = "pb_entry s t p"
  let ?L = "catch_null (fetchPBTime cv uu src p t)"
  let ?J = "\<lambda>v::jsval \<times> message list. (fst v = ?a \<or> fst v = ?L) \<and> snd v = []"
  have step: "?J (pb_view p t (pb_player cv t old ?L p st))" if "?J (pb_view p t st)" for old st
  proof (cases ?L)
    case (JNum l)
    obtain s' tr where st: "st = (s', tr)" by (cases st)
    from that have m: "pb_messages_about p t tr = []"
      and e: "pb_entry s' t p = ?a \<or> pb_entry s' t p = JNum l"
      by (auto simp: st pb_view_def JNum)
    from e show ?thesis
    proof
      assume "pb_entry s' t p = ?a"
      then show ?thesis using nfp m by (simp add: JNum st pb_view_same)
    next
      assume "pb_entry s' t p = JNum l"
      then show ?thesis using m
        by (auto simp: JNum st pb_view_same Let_def jsnum_less_irrefl)
    qed
  qed (use that in \<open>simp_all add: pb_view_skip\<close>)
  have "?J (pb_view p t (pb_tick cv uu src board s))"
    by (rule pb_tick_keep [where J = ?J]) (use step in \<open>auto simp: pb_view_def pb_messages_about_Nil\<close>)
  then show ?thesis by (simp add: pb_view_def)
qed

lemma pb_player_top3:
  "top3ByType (fst (pb_player cv t old latest p st)) = top3ByType (fst st)"
  by (cases st; cases latest) (auto simp: pb_player_def set_pb_def Let_def)

lemma pb_player_distinct:
  "distinct (map fst (pbByType (fst st) t0)) \<Longrightarrow>
   distinct (map fst (pbByType (fst (pb_player cv t old latest p st)) t0))"
  by (cases st; cases latest) (auto simp: pb_player_def set_pb_def Let_def distinct_update)

lemma pb_type_fst:
  "fst (pb_type cv uu src st t) =
     (let s' = fst (foldl (\<lambda>st' p. pb_player cv t (top3ByType (fst st) t)
                            (catch_null (fetchPBTime cv uu src p t)) p st') st players)
      in s'\<lparr>top3ByType := (top3ByType s')(t := computeTop3 cv s' t)\<rparr>)"
  by (simp add: pb_type_def Let_def split: prod.splits)

lemma pb_type_top3_other:
  assumes "t' \<noteq> t"
  shows "top3ByType (fst (pb_type cv uu src st t')) t = top3ByType (fst st) t"
proof -
  have "top3ByType (fst (foldl (\<lambda>st' p. pb_player cv t' (top3ByType (fst st) t')
          (catch_null (fetchPBTime cv uu src p t')) p st') st players)) = top3ByType (fst st)"
    by (rule foldl_keep [where I = "\<lambda>x. top3ByType (fst x) = top3ByType (fst st)"])
       (simp_all add: pb_player_top3)
  then show ?thesis using assms by (simp add: pb_type_fst Let_def)
qed

lemma pb_type_top3_same:
  "top3ByType (fst (pb_type cv uu src st t)) t = computeTop3 cv (fst (pb_type cv uu src st t)) t"
  by (simp add: pb_type_fst Let_def computeTop3_def)

lemma pb_steps_distinct:
  "distinct (map fst (pbByType (fst st) t0)) \<Longrightarrow>
   distinct (map fst (pbByType (fst (foldl (\<lambda>st' q. pb_player cv t old (F q) q st') st ps)) t0))"
  by (rule foldl_keep [where I = "\<lambda>x. distinct (map fst (pbByType (fst x) t0))"])
     (simp_all add: pb_player_distinct)

lemma pb_type_distinct:
  "distinct (map fst (pbByType (fst st) t0)) \<Longrightarrow>
   distinct (map fst (pbByType (fst (pb_type cv uu src st t)) t0))"
  using pb_steps_distinct [of st t0 cv t "top3ByType (fst st) t"
      "\<lambda>q. catch_null (fetchPBTime cv uu src q t)" players]
  by (simp add: pb_type_fst Let_def)

lemma split_at:
  assumes "x \<in> set xs" "distinct xs"
  shows "\<exists>post. xs = takeWhile (\<lambda>y. y \<noteq> x) xs @ x # post \<and> x \<notin> set post
           \<and> set post \<subseteq> set xs"
proof -
  obtain a b where ab: "xs = a @ x # b" "x \<notin> set a"
    using assms(1) by (meson split_list_first)
  then have "takeWhile (\<lambda>y. y \<noteq> x) xs = a" by (simp add: takeWhile_first)
  moreover have "x \<notin> set b" using assms(2) ab by auto
  moreover have "set b \<subseteq> set xs" using ab by auto
  ultimately show ?thesis using ab by auto
qed

lemma takeWhile_neq_notin: "x \<notin> set (takeWhile (\<lambda>y. y \<noteq> x) xs)"
  by (auto dest: set_takeWhileD)

lemma distinct_players: "distinct players"
  by (simp add: players_def)

lemma distinct_types: "distinct TRACK_TYPES"
  by (simp add: TRACK_TYPES_def)

lemma pb_view_steps_other:
  assumes "t \<in> set TRACK_TYPES" "p \<notin> set ps"
  shows "pb_view p t (foldl (\<lambda>st' q. pb_player cv t old (F q) q st') st ps) = pb_view p t st"
proof (rule foldl_keep [where I = "\<lambda>x. pb_view p t x = pb_view p t st"])
  fix q st' assume "q \<in> set ps" and I: "pb_view p t st' = pb_view p t st"
  then have "q \<noteq> p" using assms(2) by auto
  then show "pb_view p t (pb_player cv t old (F q) q st') = pb_view p t st"
    using I assms(1) by (simp add: pb_view_other)
qed simp

lemma pb_view_type_other:
  assumes "t' \<in> set TRACK_TYPES" "t' \<noteq> t"
  shows "pb_view p t (pb_type cv uu src st t') = pb_view p t st"
  unfolding pb_view_type
proof (rule foldl_keep [where I = "\<lambda>x. pb_view p t x = pb_view p t st"])
  fix q st' assume I: "pb_view p t st' = pb_view p t st"
  show "pb_view p t (pb_player cv t' (top3ByType (fst st) t')
          (catch_null (fetchPBTime cv uu src q t')) q st') = pb_view p t st"
    using I assms by (simp add: pb_view_other)
qed simp

lemma pb_view_types_other:
  assumes "set ts \<subseteq> set TRACK_TYPES" "t \<notin> set ts"
  shows "pb_view p t (foldl (pb_type cv uu src) st ts) = pb_view p t st"
proof (rule foldl_keep [where I = "\<lambda>x. pb_view p t x = pb_view p t st"])
  fix t' st' assume "t' \<in> set ts" and I: "pb_view p t st' = pb_view p t st"
  then have "t' \<in> set TRACK_TYPES" "t' \<noteq> t" using assms by auto
  then show "pb_view p t (pb_type cv uu src st' t') = pb_view p t st"
    using I by (simp add: pb_view_type_other)
qed simp

lemma pb_types_top3_other:
  assumes "t \<notin> set ts"
  shows "top3ByType (fst (foldl (pb_type cv uu src) st ts)) t = top3ByType (fst st) t"
proof (rule foldl_keep [where I = "\<lambda>x. top3ByType (fst x) t = top3ByType (fst st) t"])
  fix t' and st' :: "state \<times> event list"
  assume "t' \<in> set ts" and I: "top3ByType (fst st') t = top3ByType (fst st) t"
  then have "t' \<noteq> t" using assms by auto
  then show "top3ByType (fst (pb_type cv uu src st' t')) t = top3ByType (fst st) t"
    using I by (simp add: pb_type_top3_other)
qed simp

lemma pb_types_distinct:
  "distinct (map fst (pbByType (fst st) t0)) \<Longrightarrow>
   distinct (map fst (pbByType (fst (foldl (pb_type cv uu src) st ts)) t0))"
  by (rule foldl_keep [where I = "\<lambda>x. distinct (map fst (pbByType (fst x) t0))"])
     (simp_all add: pb_type_distinct)

text \<open>The state a tick has reached at a player's turn shows the pair as the tick found it.\<close>

lemma pb_reach_view:
  assumes "t \<in> set TRACK_TYPES"
  shows "pb_view p t (pb_reach cv uu src s t p) = (pb_entry s t p, [])"
proof -
  let ?st = "foldl (pb_type cv uu src) (s, []) (takeWhile (\<lambda>t'. t' \<noteq> t) TRACK_TYPES)"
  have "pb_view p t ?st = pb_view p t (s, [])"
    by (rule pb_view_types_other) (auto dest: set_takeWhileD)
  moreover have "pb_view p t (pb_reach cv uu src s t p) = pb_view p t ?st"
    unfolding pb_reach_def Let_def
    by (rule pb_view_steps_other [OF assms]) (rule takeWhile_neq_notin)
  ultimately show ?thesis by (simp add: pb_view_def pb_messages_about_Nil)
qed

lemma pb_reach_distinct:
  "distinct (map fst (pbByType s t)) \<Longrightarrow>
   distinct (map fst (pbByType (fst (pb_reach cv uu src s t p)) t))"
  unfolding pb_reach_def Let_def
  by (intro pb_steps_distinct pb_types_distinct) simp

text \<open>What a tick shows about a pair is what the pair's own step shows at its turn.\<close>

lemma pb_tick_pair_view:
  assumes t: "t \<in> set TRACK_TYPES" and p: "p \<in> set players"
  shows "pb_view p t (pb_tick cv uu src board s) =
         pb_view p t (pb_player cv t (top3ByType s t) (catch_null (fetchPBTime cv uu src p t)) p
                        (pb_reach cv uu src s t p))"
proof -
  let ?tpre = "takeWhile (\<lambda>t'. t' \<noteq> t) TRACK_TYPES"
  let ?ppre = "takeWhile (\<lambda>q. q \<noteq> p) players"
  let ?st = "foldl (pb_type cv uu src) (s, []) ?tpre"
  let ?step = "\<lambda>st' q. pb_player cv t (top3ByType (fst ?st) t)
                          (catch_null (fetchPBTime cv uu src q t)) q st'"
  obtain tpost where T: "TRACK_TYPES = ?tpre @ t # tpost" and tpost: "t \<notin> set tpost"
    and sub: "set tpost \<subseteq> set TRACK_TYPES"
    using split_at [OF t distinct_types] by blast
  obtain ppost where P: "players = ?ppre @ p # ppost" and ppost: "p \<notin> set ppost"
    using split_at [OF p distinct_players] by blast
  have old: "top3ByType (fst ?st) t = top3ByType s t"
    using pb_types_top3_other [of t ?tpre cv uu src "(s, [])"] takeWhile_neq_notin [of t TRACK_TYPES]
    by simp
  have mid: "foldl (\<lambda>st' q. pb_player cv t (top3ByType s t)
                          (catch_null (fetchPBTime cv uu src q t)) q st') ?st ?ppre
             = pb_reach cv uu src s t p"
    by (simp add: pb_reach_def Let_def old)
  have "pb_view p t (pb_tick cv uu src board s) =
        pb_view p t (foldl (pb_type cv uu src) (s, []) TRACK_TYPES)"
    by (rule pb_view_tick)
  also have "foldl (pb_type cv uu src) (s, []) TRACK_TYPES =
        foldl (pb_type cv uu src) (pb_type cv uu src ?st t) tpost"
    by (subst T) simp
  also have "pb_view p t \<dots> = pb_view p t (pb_type cv uu src ?st t)"
    by (rule pb_view_types_other [OF sub tpost])
  also have "\<dots> = pb_view p t (foldl ?step ?st players)"
    by (rule pb_view_type)
  also have "foldl ?step ?st players = foldl ?step (?step (foldl ?step ?st ?ppre) p) ppost"
    by (subst P) simp
  also have "pb_view p t \<dots> = pb_view p t (?step (foldl ?step ?st ?ppre) p)"
    by (rule pb_view_steps_other [OF t ppost])
  finally show ?thesis by (simp add: old mid)
qed

lemma rankable_member:
  assumes "finite_positive (Number_js cv (get_entry obj p))"
  shows "(p, Number_js cv (get_entry obj p)) \<in> set (rankable cv obj)"
proof (cases "map_of obj p")
  case None
  with assms show ?thesis by (simp add: get_entry_def finite_positive_def)
next
  case (Some v)
  then have "(p, v) \<in> set obj" by (rule map_of_SomeD)
  then have "(p, Number_js cv v) \<in> set (map (\<lambda>(name, val). (name, Number_js cv val)) obj)"
    by force
  with assms Some show ?thesis
    by (simp add: rankable_def get_entry_def finite_positive_def)
qed

lemma rankable_entry:
  assumes "distinct (map fst obj)" "(q, x) \<in> set (rankable cv obj)"
  shows "x = Number_js cv (get_entry obj q) \<and> finite_positive x"
proof -
  from assms(2) obtain v where v: "(q, v) \<in> set obj" "x = Number_js cv v" and fp: "finite_positive x"
    by (auto simp: rankable_def finite_positive_def)
  from assms(1) v(1) have "map_of obj q = Some v" by (rule map_of_is_SomeI)
  with v fp show ?thesis by (simp add: get_entry_def)
qed

lemma placement_of_rank_of:
  assumes "distinct (map fst (pbByType s t))"
    and "finite_positive (Number_js cv (pb_entry s t p))"
  shows "placement_of cv s t p = rank_of cv (pbByType s t) p"
  using placement_of_rank [OF assms(1) rankable_member [OF assms(2) [unfolded pb_entry_def]]]
  by (simp add: rank_of_def Let_def)

lemma rankable_distinct:
  assumes "distinct (map fst obj)"
  shows "distinct (map fst (rankable cv obj))"
proof -
  have m: "map fst (map (\<lambda>(name, val). (name, Number_js cv val)) obj) = map fst obj"
    by (simp add: case_prod_unfold comp_def)
  have "distinct (map fst (map (\<lambda>(name, val). (name, Number_js cv val)) obj))"
    unfolding m by (rule assms)
  then show ?thesis unfolding rankable_def by (rule distinct_map_filter)
qed

lemma ranking_distinct:
  "distinct (map fst obj) \<Longrightarrow> distinct (map fst (ranking cv obj))"
  using rankable_distinct [of obj cv] by (simp add: ranking_rankable distinct_map)

lemma ranking_set: "set (ranking cv obj) = set (rankable cv obj)"
  by (simp add: ranking_rankable)

lemma findIndex_distinct_nth:
  "distinct (map g xs) \<Longrightarrow> k < length xs \<Longrightarrow> findIndex (\<lambda>y. g y = g (xs ! k)) xs = int k"
proof (induction xs arbitrary: k)
  case Nil
  then show ?case by simp
next
  case (Cons x xs)
  show ?case
  proof (cases k)
    case 0
    then show ?thesis by simp
  next
    case (Suc j)
    with Cons.prems have j: "j < length xs" and d: "distinct (map g xs)" by simp_all
    have "g x \<noteq> g (xs ! j)" using Cons.prems(1) j by auto
    moreover have "findIndex (\<lambda>y. g y = g (xs ! j)) xs = int j" using Cons.IH [OF d j] .
    ultimately show ?thesis using Suc by (simp add: Let_def)
  qed
qed

lemma findIndex_found:
  "findIndex f xs = int k \<Longrightarrow> k < length xs \<and> f (xs ! k)"
proof (induction xs arbitrary: k)
  case Nil
  then show ?case by simp
next
  case (Cons x xs)
  show ?case
  proof (cases "f x")
    case True
    with Cons.prems show ?thesis by simp
  next
    case False
    with Cons.prems have "findIndex f xs = int k - 1" "0 \<le> findIndex f xs"
      by (auto simp: Let_def split: if_splits)
    then obtain j where j: "k = Suc j" "findIndex f xs = int j"
      by (cases k) auto
    from Cons.IH [OF j(2)] j(1) show ?thesis by simp
  qed
qed

lemma array_get_top:
  "(array_get (map fst (take 3 R)) k = Some q) =
   (0 \<le> k \<and> k < 3 \<and> nat k < length R \<and> fst (R ! nat k) = q)"
proof (cases "0 \<le> k \<and> k < 3 \<and> nat k < length R")
  case True
  then have "nat k < 3" by linarith
  with True have "nat k < length (take 3 R)" by simp
  then have "map fst (take 3 R) ! nat k = fst (R ! nat k)" by simp
  with True show ?thesis by (auto simp: array_get_def)
next
  case False
  then show ?thesis by (auto simp: array_get_def)
qed

lemma computeTop3_slot:
  assumes d: "distinct (map fst (pbByType s t))"
  shows "(array_get (computeTop3 cv s t) k = Some q) =
         (0 \<le> k \<and> k < 3 \<and> finite_positive (Number_js cv (pb_entry s t q))
          \<and> rank_of cv (pbByType s t) q = k + 1)"
proof
  let ?R = "ranking cv (pbByType s t)"
  have pred: "(\<lambda>(name, v). name = q) = (\<lambda>y. fst y = q)" by auto
  assume "array_get (computeTop3 cv s t) k = Some q"
  then have k: "0 \<le> k" "k < 3" "nat k < length ?R" and q: "fst (?R ! nat k) = q"
    by (simp_all add: computeTop3_def array_get_top)
  have "?R ! nat k \<in> set (rankable cv (pbByType s t))"
    using k(3) ranking_set nth_mem by blast
  then have "(q, snd (?R ! nat k)) \<in> set (rankable cv (pbByType s t))"
    using q by (metis prod.collapse)
  then have fp: "finite_positive (Number_js cv (pb_entry s t q))"
    using rankable_entry [OF d] by (auto simp: pb_entry_def)
  have "findIndex (\<lambda>y. fst y = fst (?R ! nat k)) ?R = int (nat k)"
    using ranking_distinct [OF d] k(3) by (rule findIndex_distinct_nth)
  then have "placement_of cv s t q = k + 1"
    using k(1) q by (simp add: placement_of_def pred)
  then show "0 \<le> k \<and> k < 3 \<and> finite_positive (Number_js cv (pb_entry s t q))
          \<and> rank_of cv (pbByType s t) q = k + 1"
    using k fp placement_of_rank_of [OF d fp] by simp
next
  let ?R = "ranking cv (pbByType s t)"
  have pred: "(\<lambda>(name, v). name = q) = (\<lambda>y. fst y = q)" by auto
  assume a: "0 \<le> k \<and> k < 3 \<and> finite_positive (Number_js cv (pb_entry s t q))
          \<and> rank_of cv (pbByType s t) q = k + 1"
  then have "placement_of cv s t q = k + 1"
    using placement_of_rank_of [OF d] by simp
  then have "findIndex (\<lambda>y. fst y = q) ?R = int (nat k)"
    using a by (simp add: placement_of_def pred)
  then have "nat k < length ?R \<and> fst (?R ! nat k) = q"
    by (rule findIndex_found)
  then show "array_get (computeTop3 cv s t) k = Some q"
    using a by (simp add: computeTop3_def array_get_top)
qed

lemma improvement_messages_spec:
  "improvement_messages old place t p l prev = spec_improvement_messages old place t p l prev"
proof -
  have "(1 \<le> place \<and> place \<le> 3) = (place = 1 \<or> place = 2 \<or> place = 3)" by auto
  then show ?thesis
    by (auto simp: improvement_messages_shape spec_improvement_messages_def
          getPlacementMessage_def placement_text_def)
qed

lemma catch_null_number:
  "catch_null r = JNum l \<Longrightarrow> r = Inr (JNum l)"
  by (cases r) (simp_all add: catch_null_def)

lemma set_pb_distinct:
  "distinct (map fst (pbByType s t0)) \<Longrightarrow> distinct (map fst (pbByType (set_pb s t p v) t0))"
  by (auto simp: set_pb_def distinct_update)

lemma step_messages_by_rank:
  assumes d: "distinct (map fst (pbByType s t))"
    and fp: "finite_positive (Number_js cv (pb_entry s t p))"
    and less: "jsnum_less l (Number_js cv (pb_entry s t p))"
    and fpl: "finite_positive l"
  shows "improvement_messages old (placement_of cv (set_pb s t p (JNum l)) t p) t p l
           (Number_js cv (pb_entry s t p)) =
         spec_improvement_messages old (rank_of cv (pbByType (set_pb s t p (JNum l)) t) p) t p l
           (Number_js cv (pb_entry s t p))"
proof -
  have "finite_positive (Number_js cv (pb_entry (set_pb s t p (JNum l)) t p))"
    using fpl by (simp add: pb_entry_set_pb)
  then have "placement_of cv (set_pb s t p (JNum l)) t p =
             rank_of cv (pbByType (set_pb s t p (JNum l)) t) p"
    by (rule placement_of_rank_of [OF set_pb_distinct [OF d]])
  then show ?thesis by (simp add: improvement_messages_spec)
qed

lemma step_sent_by_rank:
  assumes d: "distinct (map fst (pbByType s t))"
    and fp: "finite_positive (Number_js cv (pb_entry s t p))"
    and less: "jsnum_less l (Number_js cv (pb_entry s t p))"
    and fpl: "finite_positive l"
  shows "sent (snd (pb_player cv t old (JNum l) p (s, tr))) =
         sent tr @ spec_improvement_messages old
                     (rank_of cv (pbByType (set_pb s t p (JNum l)) t) p) t p l
                     (Number_js cv (pb_entry s t p))"
  using step_messages_by_rank [OF assms, of old] fp less
  by (simp add: pb_player_improve placement_of_def sent_append sent_Save sent_map_Send)

lemma tick_messages_by_rank:
  assumes t: "t \<in> set TRACK_TYPES" and p: "p \<in> set players"
    and d: "distinct (map fst (pbByType s t))"
    and fp: "finite_positive (Number_js cv (pb_entry s t p))"
    and latest: "catch_null (fetchPBTime cv uu src p t) = JNum l"
    and less: "jsnum_less l (Number_js cv (pb_entry s t p))"
  shows "pb_messages_about p t (snd (pb_tick cv uu src board s)) =
         spec_improvement_messages (top3ByType s t)
           (rank_of cv (pbByType (set_pb (fst (pb_reach cv uu src s t p)) t p (JNum l)) t) p)
           t p l (Number_js cv (pb_entry s t p))"
proof -
  obtain sm trm where mid: "pb_reach cv uu src s t p = (sm, trm)"
    by (cases "pb_reach cv uu src s t p")
  have v: "pb_entry sm t p = pb_entry s t p" "pb_messages_about p t trm = []"
    using pb_reach_view [OF t, of p cv uu src s] by (simp_all add: mid pb_view_def)
  have dm: "distinct (map fst (pbByType sm t))"
    using pb_reach_distinct [OF d, of cv uu src p] by (simp add: mid)
  have fpl: "finite_positive l"
    using catch_null_number [OF latest] by (rule fetchPBTime_finite_positive)
  have fpm: "finite_positive (Number_js cv (pb_entry sm t p))"
    and lessm: "jsnum_less l (Number_js cv (pb_entry sm t p))"
    using fp less by (simp_all add: v)
  have pair: "pb_view p t (pb_tick cv uu src board s) =
        pb_view p t (pb_player cv t (top3ByType s t) (JNum l) p (sm, trm))"
    using pb_tick_pair_view [OF t p, of cv uu src board s] by (simp add: latest mid)
  have same: "pb_view p t (pb_player cv t (top3ByType s t) (JNum l) p (sm, trm)) =
        (JNum l, improvement_messages (top3ByType s t)
                   (placement_of cv (set_pb sm t p (JNum l)) t p) t p l
                   (Number_js cv (pb_entry sm t p)))"
    using fpm lessm by (simp add: pb_view_same v(2) placement_of_def)
  have "pb_view p t (pb_tick cv uu src board s) =
        (JNum l, improvement_messages (top3ByType s t)
                   (placement_of cv (set_pb sm t p (JNum l)) t p) t p l
                   (Number_js cv (pb_entry sm t p)))"
    using pair same by simp
  then have "pb_messages_about p t (snd (pb_tick cv uu src board s)) =
        improvement_messages (top3ByType s t) (placement_of cv (set_pb sm t p (JNum l)) t p) t p l
          (Number_js cv (pb_entry sm t p))"
    by (simp add: pb_view_def)
  also have "\<dots> = spec_improvement_messages (top3ByType s t)
      (rank_of cv (pbByType (set_pb sm t p (JNum l)) t) p) t p l (Number_js cv (pb_entry sm t p))"
    using dm fpm lessm fpl by (rule step_messages_by_rank)
  finally show ?thesis by (simp add: mid v(1))
qed

section \<open>The updater: claims\<close>

lemma fetch_580:
  "catch_null (fetchPBTime no_coercion one_uuid source_580 ''JerryBox'' 2) = JNum (Fin 580000)"
  by (simp add: catch_null_def fetchPBTime_def fetchRankedPB_def source_580_def one_uuid_def
        isValidWinForPlayer_iff finite_positive_def win_580_def)

lemma fetch_all_580:
  "catch_null (fetchPBTime no_coercion one_uuid source_580 p t) =
     (if p = ''JerryBox'' \<and> t = 2 then JNum (Fin 580000) else JNull)"
  by (simp add: catch_null_def fetchPBTime_def fetchRankedPB_def fetchCasualPrivatePB_def
        source_580_def one_uuid_def isValidWinForPlayer_iff finite_positive_def win_580_def
        scanPages.simps [of _ _ _ 0] MAX_PAGES_def)

text \<open>A whole tick on the example: the rival is overtaken, two messages are sent.\<close>

lemma pb_tick_example:
  "sent (snd (pb_tick no_coercion one_uuid source_580 True state_rivals)) =
     [TakesFirst ''JerryBox'' ''Ranked'', NewPB ''Ranked'' ''JerryBox'' (Fin 580000) (Fin 620000)]
   \<and> pb_entry (fst (pb_tick no_coercion one_uuid source_580 True state_rivals)) 2 ''JerryBox''
       = JNum (Fin 580000)
   \<and> top3ByType (fst (pb_tick no_coercion one_uuid source_580 True state_rivals)) 2
       = [''JerryBox'', ''tumblintim'']"
  by (simp add: pb_tick_def pb_type_def TRACK_TYPES_def players_def fetch_all_580 pb_player_def
        state_rivals_def set_pb_def get_entry_def pb_entry_def ranking_def computeTop3_def
        improvement_messages_def getPlacementMessage_def array_get_def typeLabel_def
        type_value_def sent_def Let_def)

lemma fetch_all_605:
  "catch_null (fetchPBTime no_coercion one_uuid source_605 p t) =
     (if p = ''JerryBox'' \<and> t = 2 then JNum (Fin 605000) else JNull)"
  by (simp add: catch_null_def fetchPBTime_def fetchRankedPB_def fetchCasualPrivatePB_def
        source_605_def one_uuid_def isValidWinForPlayer_iff finite_positive_def win_605_def
        scanPages.simps [of _ _ _ 0] MAX_PAGES_def)

lemma reach_three:
  "pbByType (fst (pb_reach no_coercion one_uuid source_605 state_three 2 ''JerryBox'')) 2
     = pbByType state_three 2"
  by (simp add: pb_reach_def pb_type_def TRACK_TYPES_def players_def fetch_all_605 pb_player_def
        state_three_def Let_def)

lemma players_first: "''JerryBox'' \<in> set players"
  by (simp add: players_def)

lemma ranked_tracked: "2 \<in> set TRACK_TYPES"
  by (simp add: TRACK_TYPES_def)

lemma sent_Send: "sent (Send m # tr) = m # sent tr"
  by (simp add: sent_def)

text \<open>
  Claim C2. For every match type and player whose stored entry reads as a finite, strictly
  positive time when a tick of the updater starts, the entry the tick leaves is less than
  or equal to it. The tick is taken as one uninterrupted run from the state it loads.
\<close>

theorem pb_tick_never_increases:
  assumes "finite_positive (Number_js cv (pb_entry s t p))"
  shows "jsnum_le (Number_js cv (pb_entry (fst (pb_tick cv uuidByName src board s)) t p))
           (Number_js cv (pb_entry s t p))"
  using assms by (rule pb_tick_entry_bounded)

theorem pb_tick_never_increases_witness:
  "finite_positive (Number_js no_coercion (pb_entry state_rivals 2 ''JerryBox''))
   \<and> pb_entry state_rivals 2 ''JerryBox'' = JNum (Fin 620000)
   \<and> pb_entry (fst (pb_tick no_coercion one_uuid source_580 True state_rivals)) 2 ''JerryBox''
       = JNum (Fin 580000)
   \<and> jsnum_le (Number_js no_coercion
        (pb_entry (fst (pb_tick no_coercion one_uuid source_580 True state_rivals)) 2 ''JerryBox''))
        (Number_js no_coercion (pb_entry state_rivals 2 ''JerryBox''))"
proof -
  have e: "pb_entry state_rivals 2 ''JerryBox'' = JNum (Fin 620000)"
    by (simp add: pb_entry_def get_entry_def state_rivals_def)
  have h: "finite_positive (Number_js no_coercion (pb_entry state_rivals 2 ''JerryBox''))"
    by (simp add: e finite_positive_def)
  show ?thesis
    using h e pb_tick_example
      pb_tick_never_increases [OF h, where uuidByName = one_uuid and src = source_580
        and board = True]
    by simp
qed

text \<open>
  Claim C9. When the resolver gives no number for a player and match type in a tick (the
  request throws, which the caller turns into \<^verbatim>\<open>null\<close>, or the payload yields \<^verbatim>\<open>null\<close>),
  the step for the pair changes nothing, the entry stored for the pair after the tick is
  the one before it, and the tick sends no best-time message about the pair.
\<close>

theorem pb_tick_skips_unresolved:
  assumes "\<not> is_number (catch_null (fetchPBTime cv uuidByName src p t))"
  shows "(\<forall>old st. pb_player cv t old (catch_null (fetchPBTime cv uuidByName src p t)) p st = st)
    \<and> pb_entry (fst (pb_tick cv uuidByName src board s)) t p = pb_entry s t p
    \<and> pb_messages_about p t (snd (pb_tick cv uuidByName src board s)) = []"
  using assms pb_tick_skip [OF assms, of board s]
  by (simp add: pb_player_skip pb_view_def)

theorem pb_tick_skips_unresolved_witness:
  "fetchPBTime no_coercion one_uuid source_down ''JerryBox'' 2 = Inl RequestFailed
   \<and> pb_entry (fst (pb_tick no_coercion one_uuid source_down True state_rivals)) 2 ''JerryBox''
       = JNum (Fin 620000)
   \<and> pb_messages_about ''JerryBox'' 2
        (snd (pb_tick no_coercion one_uuid source_down True state_rivals)) = []"
proof -
  have f: "fetchPBTime no_coercion one_uuid source_down ''JerryBox'' 2 = Inl RequestFailed"
    by (simp add: fetchPBTime_def fetchRankedPB_def source_down_def)
  then have h: "\<not> is_number (catch_null (fetchPBTime no_coercion one_uuid source_down ''JerryBox'' 2))"
    by (simp add: catch_null_def)
  have e: "pb_entry state_rivals 2 ''JerryBox'' = JNum (Fin 620000)"
    by (simp add: pb_entry_def get_entry_def state_rivals_def)
  show ?thesis
    using f pb_tick_skips_unresolved [OF h, of True state_rivals] by (simp add: e)
qed

text \<open>
  Claim C10, as the code has it. When the stored entry of a match type and player,
  converted by \<^verbatim>\<open>Number()\<close>, is not a finite, strictly positive number (missing, converting
  to \<^verbatim>\<open>NaN\<close>, zero or negative), the step for the pair stores a resolved time whatever its
  value and adds no effect, and a tick run from that state sends no best-time message
  about the pair. A stored value that is not a number but converts to a positive one is
  treated as that number.
\<close>

theorem unusable_entry_replaced_silently:
  assumes "\<not> finite_positive (Number_js cv (pb_entry s t p))"
  shows "pb_player cv t old (JNum l) p (s, tr) = (set_pb s t p (JNum l), tr)
    \<and> pb_entry (set_pb s t p (JNum l)) t p = JNum l
    \<and> pb_messages_about p t (snd (pb_tick cv uuidByName src board s)) = []"
  using assms pb_tick_silent [OF assms, of uuidByName src board]
  by (simp add: pb_player_cold pb_entry_set_pb)

theorem unusable_entry_replaced_silently_witness:
  "pb_entry state_zero 2 ''JerryBox'' = JNum (Fin 0)
   \<and> pb_player no_coercion 2 [] (JNum (Fin 580000)) ''JerryBox'' (state_zero, [])
       = (set_pb state_zero 2 ''JerryBox'' (JNum (Fin 580000)), [])
   \<and> pb_entry (set_pb state_zero 2 ''JerryBox'' (JNum (Fin 580000))) 2 ''JerryBox''
       = JNum (Fin 580000)
   \<and> pb_messages_about ''JerryBox'' 2
        (snd (pb_tick no_coercion one_uuid source_580 True state_zero)) = []"
proof -
  have e: "pb_entry state_zero 2 ''JerryBox'' = JNum (Fin 0)"
    by (simp add: pb_entry_def get_entry_def state_zero_def)
  then have h: "\<not> finite_positive (Number_js no_coercion (pb_entry state_zero 2 ''JerryBox''))"
    by (simp add: finite_positive_def)
  show ?thesis
    using e unusable_entry_replaced_silently
      [OF h, where old = "[]" and l = "Fin 580000" and tr = "[]" and uuidByName = one_uuid
         and src = source_580 and board = True]
    by simp
qed

text \<open>
  Claim C10 as stated fails on a stored entry that is not a number but converts to a
  positive one: a stored \<^verbatim>\<open>true\<close> reads as 1, so a resolved 580000 does not replace it, in
  the step and over the whole tick.
\<close>

theorem stored_true_kept:
  "\<not> spec_positive_number (pb_entry state_true 2 ''JerryBox'')
   \<and> catch_null (fetchPBTime no_coercion one_uuid source_580 ''JerryBox'' 2) = JNum (Fin 580000)
   \<and> pb_player no_coercion 2 [] (JNum (Fin 580000)) ''JerryBox'' (state_true, [])
       = (state_true, [])
   \<and> pb_entry (fst (pb_tick no_coercion one_uuid source_580 True state_true)) 2 ''JerryBox''
       = JBool True"
proof -
  have e: "pb_entry state_true 2 ''JerryBox'' = JBool True"
    by (simp add: pb_entry_def get_entry_def state_true_def)
  have a: "\<not> spec_positive_number (pb_entry state_true 2 ''JerryBox'')"
    by (simp add: e spec_positive_number_def)
  have fp: "finite_positive (Number_js no_coercion (pb_entry state_true 2 ''JerryBox''))"
    by (simp add: e finite_positive_def)
  have nl: "\<not> jsnum_less (Fin 580000) (Number_js no_coercion (pb_entry state_true 2 ''JerryBox''))"
    by (simp add: e)
  have c: "pb_player no_coercion 2 [] (JNum (Fin 580000)) ''JerryBox'' (state_true, [])
       = (state_true, [])"
    using fp nl by (rule pb_player_keep)
  have d: "pb_entry (fst (pb_tick no_coercion one_uuid source_580 True state_true)) 2 ''JerryBox''
       = JBool True"
    by (simp add: pb_tick_def pb_type_def TRACK_TYPES_def players_def fetch_all_580 pb_player_def
        state_true_def set_pb_def get_entry_def pb_entry_def Let_def)
  show ?thesis using a fetch_580 c d by simp
qed

text \<open>
  Claim C6. On an accepted improvement (the stored entry reads as a finite positive time
  and the resolved time is strictly less), the effects of the step are, in this order: one
  save of the state that already holds the new entry, then the messages of the
  improvement, of which there is at least one.
\<close>

theorem improvement_saved_before_sent:
  assumes "finite_positive (Number_js cv (pb_entry s t p))"
    and "jsnum_less l (Number_js cv (pb_entry s t p))"
  shows "pb_player cv t old (JNum l) p (s, tr) =
           (set_pb s t p (JNum l),
            tr @ Save (set_pb s t p (JNum l))
               # map Send (improvement_messages old
                             (placement_of cv (set_pb s t p (JNum l)) t p) t p l
                             (Number_js cv (pb_entry s t p))))
    \<and> pb_entry (set_pb s t p (JNum l)) t p = JNum l
    \<and> improvement_messages old (placement_of cv (set_pb s t p (JNum l)) t p) t p l
         (Number_js cv (pb_entry s t p)) \<noteq> []"
  using assms
  by (simp add: pb_player_improve placement_of_def pb_entry_set_pb improvement_messages_shape)

theorem improvement_saved_before_sent_witness:
  "pb_player no_coercion 2 [''tumblintim'', ''JerryBox''] (JNum (Fin 580000)) ''JerryBox''
     (state_rivals, []) =
     (set_pb state_rivals 2 ''JerryBox'' (JNum (Fin 580000)),
      [Save (set_pb state_rivals 2 ''JerryBox'' (JNum (Fin 580000))),
       Send (TakesFirst ''JerryBox'' ''Ranked''),
       Send (NewPB ''Ranked'' ''JerryBox'' (Fin 580000) (Fin 620000))])"
proof -
  have e: "Number_js no_coercion (pb_entry state_rivals 2 ''JerryBox'') = Fin 620000"
    by (simp add: pb_entry_def get_entry_def state_rivals_def)
  have h1: "finite_positive (Number_js no_coercion (pb_entry state_rivals 2 ''JerryBox''))"
    by (simp add: e finite_positive_def)
  have h2: "jsnum_less (Fin 580000) (Number_js no_coercion (pb_entry state_rivals 2 ''JerryBox''))"
    by (simp add: e)
  have pl: "placement_of no_coercion (set_pb state_rivals 2 ''JerryBox'' (JNum (Fin 580000))) 2 ''JerryBox'' = 1"
    by (simp add: placement_of_def set_pb_def state_rivals_def ranking_def)
  show ?thesis
    using improvement_saved_before_sent
      [OF h1 h2, where old = "[''tumblintim'', ''JerryBox'']" and tr = "[]"]
    by (simp add: e pl improvement_messages_def getPlacementMessage_def array_get_def
          typeLabel_def type_value_def Let_def)
qed

text \<open>
  Claim C7. On an accepted improvement of a resolved time, the messages sent are those the
  specification names for the player's new rank and the snapshot of the top three: a
  placement message exactly when the rank (1-based, ascending by time, equal times in
  stored order, recomputed after the update) is 1, 2 or 3 and the snapshot does not hold
  the player in that slot, then in every case the new-best message with the new and the
  previous time. This holds for the step with any snapshot, and for a whole tick with the
  snapshot the state held for the match type when the tick started. The snapshot a pass
  leaves is \<^verbatim>\<open>computeTop3\<close> of its state, whose slot \<open>k\<close> holds exactly the player of rank
  \<open>k + 1\<close>. Stored objects have distinct keys.
\<close>

theorem improvement_announcements:
  "(distinct (map fst (pbByType s t))
      \<and> finite_positive (Number_js cv (pb_entry s t p))
      \<and> jsnum_less l (Number_js cv (pb_entry s t p))
      \<and> finite_positive l \<longrightarrow>
      sent (snd (pb_player cv t old (JNum l) p (s, tr))) =
        sent tr @ spec_improvement_messages old
                    (rank_of cv (pbByType (set_pb s t p (JNum l)) t) p) t p l
                    (Number_js cv (pb_entry s t p)))
   \<and> (t \<in> set TRACK_TYPES \<and> p \<in> set players
      \<and> distinct (map fst (pbByType s t))
      \<and> finite_positive (Number_js cv (pb_entry s t p))
      \<and> catch_null (fetchPBTime cv uuidByName src p t) = JNum l
      \<and> jsnum_less l (Number_js cv (pb_entry s t p)) \<longrightarrow>
      pb_messages_about p t (snd (pb_tick cv uuidByName src board s)) =
        spec_improvement_messages (top3ByType s t)
          (rank_of cv (pbByType (set_pb (fst (pb_reach cv uuidByName src s t p)) t p (JNum l)) t) p)
          t p l (Number_js cv (pb_entry s t p)))
   \<and> top3ByType (fst (pb_type cv uuidByName src st t)) t
       = computeTop3 cv (fst (pb_type cv uuidByName src st t)) t
   \<and> (distinct (map fst (pbByType s t)) \<longrightarrow>
      (array_get (computeTop3 cv s t) k = Some q) =
      (0 \<le> k \<and> k < 3 \<and> finite_positive (Number_js cv (pb_entry s t q))
       \<and> rank_of cv (pbByType s t) q = k + 1))"
proof (intro conjI impI)
  assume "distinct (map fst (pbByType s t))
      \<and> finite_positive (Number_js cv (pb_entry s t p))
      \<and> jsnum_less l (Number_js cv (pb_entry s t p))
      \<and> finite_positive l"
  then show "sent (snd (pb_player cv t old (JNum l) p (s, tr))) =
        sent tr @ spec_improvement_messages old
                    (rank_of cv (pbByType (set_pb s t p (JNum l)) t) p) t p l
                    (Number_js cv (pb_entry s t p))"
    by (intro step_sent_by_rank) simp_all
next
  assume "t \<in> set TRACK_TYPES \<and> p \<in> set players
      \<and> distinct (map fst (pbByType s t))
      \<and> finite_positive (Number_js cv (pb_entry s t p))
      \<and> catch_null (fetchPBTime cv uuidByName src p t) = JNum l
      \<and> jsnum_less l (Number_js cv (pb_entry s t p))"
  then show "pb_messages_about p t (snd (pb_tick cv uuidByName src board s)) =
        spec_improvement_messages (top3ByType s t)
          (rank_of cv (pbByType (set_pb (fst (pb_reach cv uuidByName src s t p)) t p (JNum l)) t) p)
          t p l (Number_js cv (pb_entry s t p))"
    by (intro tick_messages_by_rank) simp_all
next
  show "top3ByType (fst (pb_type cv uuidByName src st t)) t
       = computeTop3 cv (fst (pb_type cv uuidByName src st t)) t"
    by (rule pb_type_top3_same)
next
  assume "distinct (map fst (pbByType s t))"
  then show "(array_get (computeTop3 cv s t) k = Some q) =
      (0 \<le> k \<and> k < 3 \<and> finite_positive (Number_js cv (pb_entry s t q))
       \<and> rank_of cv (pbByType s t) q = k + 1)"
    by (rule computeTop3_slot)
qed

theorem improvement_announcements_witness:
  "pb_messages_about ''JerryBox'' 2 (snd (pb_tick no_coercion one_uuid source_605 True state_three))
     = [MovesSecond ''JerryBox'' ''Ranked'',
        NewPB ''Ranked'' ''JerryBox'' (Fin 605000) (Fin 620000)]
   \<and> rank_of no_coercion
        (pbByType (set_pb (fst (pb_reach no_coercion one_uuid source_605 state_three 2 ''JerryBox''))
                     2 ''JerryBox'' (JNum (Fin 605000))) 2) ''JerryBox'' = 2
   \<and> sent (snd (pb_player no_coercion 2 [''tumblintim'', ''jeefq'', ''JerryBox'']
                   (JNum (Fin 615000)) ''JerryBox'' (state_three, [])))
     = [NewPB ''Ranked'' ''JerryBox'' (Fin 615000) (Fin 620000)]
   \<and> sent (snd (pb_player no_coercion 2 [''tumblintim'', ''jeefq'', ''JerryBox'']
                   (JNum (Fin 580000)) ''JerryBox'' (state_three, [])))
     = [TakesFirst ''JerryBox'' ''Ranked'',
        NewPB ''Ranked'' ''JerryBox'' (Fin 580000) (Fin 620000)]
   \<and> array_get (computeTop3 no_coercion state_three 2) 1 = Some ''jeefq''"
proof -
  have e: "pb_entry state_three 2 ''JerryBox'' = JNum (Fin 620000)"
    by (simp add: pb_entry_def get_entry_def state_three_def)
  have e2: "pb_entry state_three 2 ''jeefq'' = JNum (Fin 610000)"
    by (simp add: pb_entry_def get_entry_def state_three_def)
  have d: "distinct (map fst (pbByType state_three 2))"
    by (simp add: state_three_def)
  have top: "top3ByType state_three 2 = [''tumblintim'', ''jeefq'', ''JerryBox'']"
    by (simp add: state_three_def)
  have r: "rank_of no_coercion (pbByType (set_pb state_three 2 ''JerryBox'' (JNum (Fin l))) 2) p =
      rank_of no_coercion [(''tumblintim'', JNum (Fin 600000)), (''jeefq'', JNum (Fin 610000)),
                           (''JerryBox'', JNum (Fin l))] p" for l p
    by (simp add: set_pb_def state_three_def)
  have rk: "rank_of no_coercion [(''tumblintim'', JNum (Fin 600000)), (''jeefq'', JNum (Fin 610000)),
                           (''JerryBox'', JNum (Fin 605000))] ''JerryBox'' = 2"
       "rank_of no_coercion [(''tumblintim'', JNum (Fin 600000)), (''jeefq'', JNum (Fin 610000)),
                           (''JerryBox'', JNum (Fin 615000))] ''JerryBox'' = 3"
       "rank_of no_coercion [(''tumblintim'', JNum (Fin 600000)), (''jeefq'', JNum (Fin 610000)),
                           (''JerryBox'', JNum (Fin 580000))] ''JerryBox'' = 1"
       "rank_of no_coercion (pbByType state_three 2) ''jeefq'' = 2"
    by (simp_all add: rank_of_def rankable_def get_entry_def state_three_def)
  have rr: "rank_of no_coercion
        (pbByType (set_pb (fst (pb_reach no_coercion one_uuid source_605 state_three 2 ''JerryBox''))
                     2 ''JerryBox'' (JNum (Fin 605000))) 2) ''JerryBox'' = 2"
  proof -
    have "pbByType (set_pb (fst (pb_reach no_coercion one_uuid source_605 state_three 2 ''JerryBox''))
                     2 ''JerryBox'' (JNum (Fin 605000))) 2
        = pbByType (set_pb state_three 2 ''JerryBox'' (JNum (Fin 605000))) 2"
      by (simp add: set_pb_def reach_three)
    then show ?thesis using rk(1) by (simp add: r)
  qed
  note T = improvement_announcements
    [where cv = no_coercion and s = state_three and t = 2 and p = "''JerryBox''"
       and uuidByName = one_uuid and src = source_605 and board = True and tr = "[]"
       and old = "[''tumblintim'', ''jeefq'', ''JerryBox'']" and k = 1 and q = "''jeefq''"]
  show ?thesis
    using T [where l = "Fin 605000"] T [where l = "Fin 615000"] T [where l = "Fin 580000"]
    by (simp add: e e2 d top r rk rr fetch_all_605 players_first ranked_tracked finite_positive_def
          spec_improvement_messages_def placement_text_def array_get_def typeLabel_def
          type_value_def sent_Nil)
qed

section \<open>The watcher\<close>

lemma messages_naming_append:
  "messages_naming p (a @ b) = messages_naming p a @ messages_naming p b"
  by (simp add: messages_naming_def sent_append)

lemma messages_naming_Nil: "messages_naming p [] = []"
  by (simp add: messages_naming_def sent_Nil)

lemma messages_naming_Save: "messages_naming p (Save s # tr) = messages_naming p tr"
  by (simp add: messages_naming_def sent_Save)

lemma messages_naming_Send:
  "messages_naming p (Send m # tr) = (if msg_player m = p then m # messages_naming p tr else messages_naming p tr)"
  by (simp add: messages_naming_def sent_def)

lemma result_message_player: "msg_player (result_message cv uu p m) = p"
  by (simp add: result_message_def buildRankedResultMessage_def Let_def)

lemma watch_view_same:
  "watch_view p (watch_player cv uu fetched p (s, tr)) =
     (case fetched of
        None \<Rightarrow> (lastMatchId s p, messages_naming p tr)
      | Some m \<Rightarrow>
          (case m_id m of
             None \<Rightarrow> (lastMatchId s p, messages_naming p tr)
           | Some i \<Rightarrow>
               (case lastMatchId s p of
                  JStr w \<Rightarrow>
                    if i \<noteq> w then (JStr i, messages_naming p tr @ [result_message cv uu p m])
                    else (JStr w, messages_naming p tr)
                | _ \<Rightarrow> (JStr i, messages_naming p tr))))"
  by (simp add: watch_view_def watch_player_def set_watermark_def Let_def
        messages_naming_append messages_naming_Save messages_naming_Send messages_naming_Nil
        result_message_player
        split: option.splits jsval.splits)

lemma watch_view_other:
  "p \<noteq> p0 \<Longrightarrow> watch_view p0 (watch_player cv uu fetched p st) = watch_view p0 st"
  by (cases st)
     (simp add: watch_view_def watch_player_def set_watermark_def Let_def
        messages_naming_append messages_naming_Save messages_naming_Send messages_naming_Nil
        result_message_player
        split: option.splits jsval.splits)

lemma watch_view_tick:
  "watch_view p0 (watch_tick cv uu src s) =
   watch_view p0 (foldl (\<lambda>st p. watch_player cv uu
                           (latest_or_null (fetchLatestMatch (newest src p))) p st)
                    (s, []) players)"
  by (simp add: watch_tick_def watch_view_def Let_def messages_naming_append
        messages_naming_Save messages_naming_Nil split: prod.splits)

lemma watch_tick_reach:
  assumes keepJ: "\<And>st. J (watch_view p0 st) \<Longrightarrow>
      J (watch_view p0 (watch_player cv uu (latest_or_null (fetchLatestMatch (newest src p0))) p0 st))"
    and keepD: "\<And>st. D (watch_view p0 st) \<Longrightarrow>
      D (watch_view p0 (watch_player cv uu (latest_or_null (fetchLatestMatch (newest src p0))) p0 st))"
    and hit: "\<And>st. J (watch_view p0 st) \<Longrightarrow>
      D (watch_view p0 (watch_player cv uu (latest_or_null (fetchLatestMatch (newest src p0))) p0 st))"
    and init: "J (watch_view p0 (s, []))"
    and mem: "p0 \<in> set players"
  shows "D (watch_view p0 (watch_tick cv uu src s))"
proof -
  have any: "K (watch_view p0 (watch_player cv uu (latest_or_null (fetchLatestMatch (newest src p))) p st))"
    if "K (watch_view p0 st)"
       "\<And>st. K (watch_view p0 st) \<Longrightarrow>
      K (watch_view p0 (watch_player cv uu (latest_or_null (fetchLatestMatch (newest src p0))) p0 st))"
    for p st K
    using that by (cases "p = p0") (simp_all add: watch_view_other)
  show ?thesis
    unfolding watch_view_tick
    by (rule foldl_reach [where I = "\<lambda>st. J (watch_view p0 st)"
          and D = "\<lambda>st. D (watch_view p0 st)" and a = p0])
       (use any [of J] any [of D] keepJ keepD hit init mem in auto)
qed

lemma watch_tick_known:
  assumes wm: "lastMatchId s p = JStr w"
    and mem: "p \<in> set players"
    and fetched: "latest_or_null (fetchLatestMatch (newest src p)) = Some m"
    and id: "m_id m = Some i"
  shows "watch_view p (watch_tick cv uu src s) =
           (JStr i, if i = w then [] else [result_message cv uu p m])"
proof -
  let ?D = "\<lambda>v::jsval \<times> message list. v = (JStr i, if i = w then [] else [result_message cv uu p m])"
  let ?J = "\<lambda>v::jsval \<times> message list. v = (JStr w, []) \<or> ?D v"
  have hit: "?D (watch_view p (watch_player cv uu (latest_or_null (fetchLatestMatch (newest src p))) p st))"
    if "?J (watch_view p st)" for st
  proof -
    obtain s' tr where st: "st = (s', tr)" by (cases st)
    from that show ?thesis
      by (auto simp: st fetched id watch_view_same) (auto simp: watch_view_def)
  qed
  show ?thesis
    by (rule watch_tick_reach [where J = ?J and D = ?D])
       (use hit mem wm in \<open>auto simp: watch_view_def messages_naming_Nil\<close>)
qed

lemma watch_tick_keep:
  assumes step: "\<And>st. J (watch_view p0 st) \<Longrightarrow>
      J (watch_view p0 (watch_player cv uu (latest_or_null (fetchLatestMatch (newest src p0))) p0 st))"
    and init: "J (watch_view p0 (s, []))"
  shows "J (watch_view p0 (watch_tick cv uu src s))"
proof -
  have any: "J (watch_view p0 (watch_player cv uu (latest_or_null (fetchLatestMatch (newest src p))) p st))"
    if "J (watch_view p0 st)" for p st
    using that step by (cases "p = p0") (simp_all add: watch_view_other)
  show ?thesis
    unfolding watch_view_tick
    by (rule foldl_keep [where I = "\<lambda>st. J (watch_view p0 st)"]) (use any init in auto)
qed

lemma watch_tick_silent:
  assumes wm: "\<forall>w. lastMatchId s p \<noteq> JStr w"
  shows "messages_naming p (snd (watch_tick cv uu src s)) = []"
proof -
  let ?F = "latest_or_null (fetchLatestMatch (newest src p))"
  let ?J = "\<lambda>v::jsval \<times> message list.
      (fst v = lastMatchId s p \<or> (\<exists>m i. ?F = Some m \<and> m_id m = Some i \<and> fst v = JStr i))
      \<and> snd v = []"
  have step: "?J (watch_view p (watch_player cv uu ?F p st))" if "?J (watch_view p st)" for st
  proof -
    obtain s' tr where st: "st = (s', tr)" by (cases st)
    from that have m: "messages_naming p tr = []"
      and e: "lastMatchId s' p = lastMatchId s p
              \<or> (\<exists>m i. ?F = Some m \<and> m_id m = Some i \<and> lastMatchId s' p = JStr i)"
      by (auto simp: st watch_view_def)
    from e show ?thesis
    proof
      assume "lastMatchId s' p = lastMatchId s p"
      then show ?thesis using wm m
        by (auto simp: st watch_view_same split: option.splits jsval.splits)
    next
      assume "\<exists>m i. ?F = Some m \<and> m_id m = Some i \<and> lastMatchId s' p = JStr i"
      then show ?thesis using m
        by (auto simp: st watch_view_same split: option.splits jsval.splits)
    qed
  qed
  have "?J (watch_view p (watch_tick cv uu src s))"
    by (rule watch_tick_keep [where J = ?J])
       (use step in \<open>auto simp: watch_view_def messages_naming_Nil\<close>)
  then show ?thesis by (simp add: watch_view_def)
qed

lemma watch_player_cold:
  "\<forall>w. lastMatchId s p \<noteq> JStr w \<Longrightarrow> m_id m = Some i \<Longrightarrow>
   watch_player cv uu (Some m) p (s, tr) = (set_watermark s p i, tr)"
  by (cases "lastMatchId s p") (simp_all add: watch_player_def)

lemma lastMatchId_set_watermark: "lastMatchId (set_watermark s p i) p = JStr i"
  by (simp add: set_watermark_def)

lemma newest_580:
  "latest_or_null (fetchLatestMatch (newest source_580 ''JerryBox'')) = Some win_580"
  by (simp add: latest_or_null_def fetchLatestMatch_def source_580_def)

lemma win_580_id: "m_id win_580 = Some ''101''"
  by (simp add: win_580_def)

text \<open>
  Claim C4. For a roster player with a stored watermark, when two consecutive ticks of the
  watcher both find the same newest-match identifier, the first tick sends exactly one
  result message naming the player if the identifier differs from the watermark and none
  if it equals it, the second tick sends none, and after either tick the watermark is
  that identifier.
\<close>

theorem watermark_idempotent:
  assumes "lastMatchId s p = JStr w" and "p \<in> set players"
    and "latest_or_null (fetchLatestMatch (newest src1 p)) = Some m1" and "m_id m1 = Some i"
    and "latest_or_null (fetchLatestMatch (newest src2 p)) = Some m2" and "m_id m2 = Some i"
  shows "messages_naming p (snd (watch_tick cv uuidByName src1 s)) =
           (if i = w then [] else [result_message cv uuidByName p m1])
    \<and> messages_naming p
         (snd (watch_tick cv uuidByName src2 (fst (watch_tick cv uuidByName src1 s)))) = []
    \<and> lastMatchId (fst (watch_tick cv uuidByName src1 s)) p = JStr i
    \<and> lastMatchId (fst (watch_tick cv uuidByName src2 (fst (watch_tick cv uuidByName src1 s)))) p
        = JStr i"
proof -
  have t1: "watch_view p (watch_tick cv uuidByName src1 s) =
      (JStr i, if i = w then [] else [result_message cv uuidByName p m1])"
    using assms(1-4) by (rule watch_tick_known)
  then have wm1: "lastMatchId (fst (watch_tick cv uuidByName src1 s)) p = JStr i"
    by (simp add: watch_view_def)
  have t2: "watch_view p (watch_tick cv uuidByName src2 (fst (watch_tick cv uuidByName src1 s))) =
      (JStr i, if i = i then [] else [result_message cv uuidByName p m2])"
    using wm1 assms(2,5,6) by (rule watch_tick_known)
  from t1 t2 show ?thesis by (simp add: watch_view_def)
qed

theorem watermark_idempotent_witness:
  "messages_naming ''JerryBox'' (snd (watch_tick no_coercion one_uuid source_580 state_watermark))
     = [MatchResult ''JerryBox'' Beat (Some (Fin 580000)) ''Ranked'']
   \<and> messages_naming ''JerryBox''
        (snd (watch_tick no_coercion one_uuid source_580
                (fst (watch_tick no_coercion one_uuid source_580 state_watermark)))) = []
   \<and> lastMatchId (fst (watch_tick no_coercion one_uuid source_580 state_watermark)) ''JerryBox''
       = JStr ''101''
   \<and> lastMatchId (fst (watch_tick no_coercion one_uuid source_580
                (fst (watch_tick no_coercion one_uuid source_580 state_watermark)))) ''JerryBox''
       = JStr ''101''"
proof -
  have w: "lastMatchId state_watermark ''JerryBox'' = JStr ''100''"
    by (simp add: state_watermark_def)
  have msg: "result_message no_coercion one_uuid ''JerryBox'' win_580 =
      MatchResult ''JerryBox'' Beat (Some (Fin 580000)) ''Ranked''"
    by (simp add: result_message_def buildRankedResultMessage_def one_uuid_def win_580_def
          typeLabel_def Let_def)
  show ?thesis
    using watermark_idempotent [OF w players_first newest_580 win_580_id newest_580 win_580_id,
      where cv = no_coercion and uuidByName = one_uuid]
    by (simp add: msg)
qed

text \<open>
  Claim C5. Cold start is silent. For every match type and player without a stored entry,
  the step that observes a resolved time stores it and adds no effect, and a tick run from
  that state sends no best-time message about the pair. For every player without a
  watermark, the step that observes a newest match with an identifier stores the
  identifier and adds no effect, and a tick of the watcher run from that state sends no
  message naming the player. The two halves are independent of each other.
\<close>

theorem cold_start_silent:
  "(map_of (pbByType s t) p = None \<longrightarrow>
      pb_player cv t old (JNum l) p (s, tr) = (set_pb s t p (JNum l), tr)
      \<and> pb_entry (set_pb s t p (JNum l)) t p = JNum l
      \<and> pb_messages_about p t (snd (pb_tick cv uuidByName src board s)) = [])
   \<and> ((\<forall>w. lastMatchId s' p' \<noteq> JStr w) \<and> m_id m = Some i \<longrightarrow>
      watch_player cv uuidByName (Some m) p' (s', tr') = (set_watermark s' p' i, tr')
      \<and> lastMatchId (set_watermark s' p' i) p' = JStr i)
   \<and> ((\<forall>w. lastMatchId s' p' \<noteq> JStr w) \<longrightarrow>
      messages_naming p' (snd (watch_tick cv uuidByName src' s')) = [])"
proof (intro conjI impI)
  assume a: "map_of (pbByType s t) p = None"
  then have "pb_entry s t p = JUndefined" by (simp add: pb_entry_def get_entry_def)
  then have nfp: "\<not> finite_positive (Number_js cv (pb_entry s t p))"
    by (simp add: finite_positive_def)
  show "pb_player cv t old (JNum l) p (s, tr) = (set_pb s t p (JNum l), tr)"
    using nfp by (rule pb_player_cold)
  show "pb_entry (set_pb s t p (JNum l)) t p = JNum l" by (simp add: pb_entry_set_pb)
  show "pb_messages_about p t (snd (pb_tick cv uuidByName src board s)) = []"
    using nfp by (rule pb_tick_silent)
next
  assume b: "(\<forall>w. lastMatchId s' p' \<noteq> JStr w) \<and> m_id m = Some i"
  then show "watch_player cv uuidByName (Some m) p' (s', tr') = (set_watermark s' p' i, tr')"
    by (simp add: watch_player_cold)
  show "lastMatchId (set_watermark s' p' i) p' = JStr i" by (rule lastMatchId_set_watermark)
next
  assume "\<forall>w. lastMatchId s' p' \<noteq> JStr w"
  then show "messages_naming p' (snd (watch_tick cv uuidByName src' s')) = []"
    by (rule watch_tick_silent)
qed

theorem cold_start_silent_witness:
  "map_of (pbByType state_fresh 2) ''JerryBox'' = None
   \<and> pb_player no_coercion 2 [] (JNum (Fin 580000)) ''JerryBox'' (state_fresh, [])
       = (set_pb state_fresh 2 ''JerryBox'' (JNum (Fin 580000)), [])
   \<and> pb_messages_about ''JerryBox'' 2
        (snd (pb_tick no_coercion one_uuid source_580 True state_fresh)) = []
   \<and> (\<forall>w. lastMatchId state_rivals ''JerryBox'' \<noteq> JStr w)
   \<and> watch_player no_coercion one_uuid (Some win_580) ''JerryBox'' (state_rivals, [])
       = (set_watermark state_rivals ''JerryBox'' ''101'', [])
   \<and> lastMatchId (set_watermark state_rivals ''JerryBox'' ''101'') ''JerryBox'' = JStr ''101''
   \<and> messages_naming ''JerryBox'' (snd (watch_tick no_coercion one_uuid source_580 state_rivals)) = []"
proof -
  have h1: "map_of (pbByType state_fresh 2) ''JerryBox'' = None"
    by (simp add: state_fresh_def)
  have h2: "\<forall>w. lastMatchId state_rivals ''JerryBox'' \<noteq> JStr w"
    by (simp add: state_rivals_def)
  show ?thesis
    using h1 h2 win_580_id
      cold_start_silent [where s = state_fresh and t = 2 and p = "''JerryBox''"
        and cv = no_coercion and old = "[]" and l = "Fin 580000" and tr = "[]"
        and uuidByName = one_uuid and src = source_580 and board = True
        and s' = state_rivals and p' = "''JerryBox''" and m = win_580 and i = "''101''"
        and tr' = "[]" and src' = source_580]
    by simp
qed

end
